theory Spec2Isabelle
  imports Complex_Main "HOL-Library.Monad_Syntax" "HOL-Library.Sublist" "HOL-Library.Multiset"
begin

section \<open>Numbers\<close>

text \<open>
  A JavaScript \<open>number\<close> is modelled as an exact \<^typ>\<open>real\<close>, without the rounding of
  IEEE-754 doubles; the layout calculator is embedded a second time with the rounding,
  further down, for the property that depends on it. In the exact model the one place where a quotient of the source
  leaves the reals is a division by zero, whose JavaScript value is \<open>Infinity\<close>,
  \<open>-Infinity\<close> or \<open>NaN\<close>; \<open>js_div\<close> returns \<open>None\<close> there, so that every
  such division is a visible branch of the model. Divisions by the literal \<open>2\<close> are
  written with the ordinary division of the reals.
\<close>

definition js_div :: "real \<Rightarrow> real \<Rightarrow> real option" where
  "js_div a b = (if b = 0 then None else Some (a / b))"

section \<open>The layout calculator (\<open>calculateImageDimensions\<close>)\<close>

text \<open>
  The object returned by \<open>calculateImageDimensions\<close>. The fields \<open>x\<close> and \<open>y\<close> of the
  source are called \<open>rect_x\<close> and \<open>rect_y\<close> here.
\<close>

record Placement =
  scaledWidth :: real
  scaledHeight :: real
  rect_x :: real
  rect_y :: real

text \<open>
  The four branches are kept in the order and with the text of the source, the last one
  (any other \<open>imagesPerPage\<close>) included. \<open>imageIndex\<close> is the slot counter of the caller,
  a natural number; \<open>imagesPerPage\<close> is an integer, so that values outside \<open>1 | 2 | 4\<close>
  can be given.
\<close>

definition calculateImageDimensions ::
  "real \<Rightarrow> real \<Rightarrow> real \<Rightarrow> real \<Rightarrow> int \<Rightarrow> nat \<Rightarrow> real \<Rightarrow> real \<Rightarrow> real \<Rightarrow> Placement option" where
  "calculateImageDimensions imgWidth imgHeight availableWidth availableHeight
       imagesPerPage imageIndex margin pageWidth pageHeight =
    (if imagesPerPage = 1 then
       do {
         rw \<leftarrow> js_div availableWidth imgWidth;
         rh \<leftarrow> js_div availableHeight imgHeight;
         let scale = min rw rh;
             sW = imgWidth * scale;
             sH = imgHeight * scale
         in Some \<lparr> scaledWidth = sW, scaledHeight = sH,
                   rect_x = margin + (availableWidth - sW) / 2,
                   rect_y = margin + (availableHeight - sH) / 2 \<rparr>
       }
     else if imagesPerPage = 2 then
       do {
         let imageAreaWidth = availableWidth / 2 - 10;
         rw \<leftarrow> js_div imageAreaWidth imgWidth;
         rh \<leftarrow> js_div availableHeight imgHeight;
         let scale = min rw rh;
             sW = imgWidth * scale;
             sH = imgHeight * scale
         in Some \<lparr> scaledWidth = sW, scaledHeight = sH,
                   rect_x = margin + real (imageIndex mod 2) * (availableWidth / 2)
                              + (imageAreaWidth - sW) / 2,
                   rect_y = margin + (availableHeight - sH) / 2 \<rparr>
       }
     else if imagesPerPage = 4 then
       do {
         let imageAreaWidth = availableWidth / 2 - 10;
         let imageAreaHeight = availableHeight / 2 - 10;
         rw \<leftarrow> js_div imageAreaWidth imgWidth;
         rh \<leftarrow> js_div imageAreaHeight imgHeight;
         let scale = min rw rh;
             sW = imgWidth * scale;
             sH = imgHeight * scale;
             col = imageIndex mod 2;
             row = (imageIndex div 2) mod 2
         in Some \<lparr> scaledWidth = sW, scaledHeight = sH,
                   rect_x = margin + real col * (availableWidth / 2)
                              + (imageAreaWidth - sW) / 2,
                   rect_y = margin + real row * (availableHeight / 2)
                              + (imageAreaHeight - sH) / 2 \<rparr>
       }
     else
       do {
         rw \<leftarrow> js_div availableWidth imgWidth;
         rh \<leftarrow> js_div availableHeight imgHeight;
         let scale = min rw rh;
             sW = imgWidth * scale;
             sH = imgHeight * scale
         in Some \<lparr> scaledWidth = sW, scaledHeight = sH,
                   rect_x = margin + (availableWidth - sW) / 2,
                   rect_y = margin + (availableHeight - sH) / 2 \<rparr>
       })"

text \<open>
  The cell a slot is fitted into: the local values \<open>imageAreaWidth\<close> and
  \<open>imageAreaHeight\<close> of the branches for two and four images per page, and the whole
  available area in the other branches.
\<close>

definition cellWidth :: "int \<Rightarrow> real \<Rightarrow> real" where
  "cellWidth imagesPerPage availableWidth =
     (if imagesPerPage = 2 \<or> imagesPerPage = 4 then availableWidth / 2 - 10 else availableWidth)"

definition cellHeight :: "int \<Rightarrow> real \<Rightarrow> real" where
  "cellHeight imagesPerPage availableHeight =
     (if imagesPerPage = 4 then availableHeight / 2 - 10 else availableHeight)"

section \<open>The layout calculator in double arithmetic\<close>

text \<open>
  A second embedding of \<open>calculateImageDimensions\<close>, with the rounding of IEEE-754
  binary64 after every operation. A finite double is the rational number it stands for
  (the sign of zero is not kept); \<open>None\<close> stands for a value that is not finite
  (\<open>Infinity\<close>, \<open>-Infinity\<close>, \<open>NaN\<close>), and an operation on it is not finite either.
  This is coarser than JavaScript in one place: \<open>Math.min\<close> of \<open>Infinity\<close> and a finite
  number is the finite number. The properties below are about finite values only.

  \<open>round64\<close> rounds to the nearest double, ties to the even significand: the spacing
  of the doubles around \<open>x\<close> is \<open>2 ^ (floor (log2 |x|) - 52)\<close>, and \<open>2 ^ -1074\<close> for
  the subnormal numbers; a result of magnitude \<open>2 ^ 1024\<close> or more overflows.
\<close>

fun bit_length :: "nat \<Rightarrow> nat" where
  "bit_length n = (if n = 0 then 0 else Suc (bit_length (n div 2)))"

declare bit_length.simps [simp del]

definition floor_log2 :: "rat \<Rightarrow> int" where
  "floor_log2 x =
     (if 1 \<le> x then int (bit_length (nat \<lfloor>x\<rfloor>)) - 1
      else (let k = int (bit_length (nat \<lfloor>1 / x\<rfloor>)) - 1
            in if 2 powi (- k) \<le> x then - k else - k - 1))"

definition round_half_even :: "rat \<Rightarrow> int" where
  "round_half_even y =
     (let f = \<lfloor>y\<rfloor>; d = y - of_int f
      in if d < 1 / 2 then f else if 1 / 2 < d then f + 1 else if even f then f else f + 1)"

definition round64 :: "rat \<Rightarrow> rat option" where
  "round64 x =
     (if x = 0 then Some 0
      else (let e = max (floor_log2 \<bar>x\<bar> - 52) (- 1074);
                y = of_int (round_half_even (x / 2 powi e)) * 2 powi e
            in if 2 powi 1024 \<le> \<bar>y\<bar> then None else Some y))"

definition f64_add :: "rat \<Rightarrow> rat \<Rightarrow> rat option" where
  "f64_add a b = round64 (a + b)"

definition f64_sub :: "rat \<Rightarrow> rat \<Rightarrow> rat option" where
  "f64_sub a b = round64 (a - b)"

definition f64_mul :: "rat \<Rightarrow> rat \<Rightarrow> rat option" where
  "f64_mul a b = round64 (a * b)"

definition f64_div :: "rat \<Rightarrow> rat \<Rightarrow> rat option" where
  "f64_div a b = (if b = 0 then None else round64 (a / b))"

record Placement64 =
  scaledWidth64 :: "rat option"
  scaledHeight64 :: "rat option"
  rect_x64 :: "rat option"
  rect_y64 :: "rat option"

definition calculateImageDimensions64 ::
  "rat \<Rightarrow> rat \<Rightarrow> rat \<Rightarrow> rat \<Rightarrow> int \<Rightarrow> nat \<Rightarrow> rat \<Rightarrow> rat \<Rightarrow> rat \<Rightarrow> Placement64" where
  "calculateImageDimensions64 imgWidth imgHeight availableWidth availableHeight
       imagesPerPage imageIndex margin pageWidth pageHeight =
    (if imagesPerPage = 1 then
       (let scale = do { rw \<leftarrow> f64_div availableWidth imgWidth;
                         rh \<leftarrow> f64_div availableHeight imgHeight;
                         Some (min rw rh) };
            sW = do { s \<leftarrow> scale; f64_mul imgWidth s };
            sH = do { s \<leftarrow> scale; f64_mul imgHeight s }
        in \<lparr> scaledWidth64 = sW, scaledHeight64 = sH,
             rect_x64 = do { w \<leftarrow> sW; d \<leftarrow> f64_sub availableWidth w;
                             c \<leftarrow> f64_div d 2; f64_add margin c },
             rect_y64 = do { h \<leftarrow> sH; d \<leftarrow> f64_sub availableHeight h;
                             c \<leftarrow> f64_div d 2; f64_add margin c } \<rparr>)
     else if imagesPerPage = 2 then
       (let imageAreaWidth = do { hw \<leftarrow> f64_div availableWidth 2; f64_sub hw 10 };
            scale = do { iaw \<leftarrow> imageAreaWidth;
                         rw \<leftarrow> f64_div iaw imgWidth;
                         rh \<leftarrow> f64_div availableHeight imgHeight;
                         Some (min rw rh) };
            sW = do { s \<leftarrow> scale; f64_mul imgWidth s };
            sH = do { s \<leftarrow> scale; f64_mul imgHeight s }
        in \<lparr> scaledWidth64 = sW, scaledHeight64 = sH,
             rect_x64 = do { hw \<leftarrow> f64_div availableWidth 2;
                             off \<leftarrow> f64_mul (of_nat (imageIndex mod 2)) hw;
                             left \<leftarrow> f64_add margin off;
                             iaw \<leftarrow> imageAreaWidth; w \<leftarrow> sW;
                             d \<leftarrow> f64_sub iaw w; c \<leftarrow> f64_div d 2;
                             f64_add left c },
             rect_y64 = do { h \<leftarrow> sH; d \<leftarrow> f64_sub availableHeight h;
                             c \<leftarrow> f64_div d 2; f64_add margin c } \<rparr>)
     else if imagesPerPage = 4 then
       (let imageAreaWidth = do { hw \<leftarrow> f64_div availableWidth 2; f64_sub hw 10 };
            imageAreaHeight = do { hh \<leftarrow> f64_div availableHeight 2; f64_sub hh 10 };
            scale = do { iaw \<leftarrow> imageAreaWidth; iah \<leftarrow> imageAreaHeight;
                         rw \<leftarrow> f64_div iaw imgWidth;
                         rh \<leftarrow> f64_div iah imgHeight;
                         Some (min rw rh) };
            sW = do { s \<leftarrow> scale; f64_mul imgWidth s };
            sH = do { s \<leftarrow> scale; f64_mul imgHeight s };
            col = imageIndex mod 2;
            row = (imageIndex div 2) mod 2
        in \<lparr> scaledWidth64 = sW, scaledHeight64 = sH,
             rect_x64 = do { hw \<leftarrow> f64_div availableWidth 2;
                             off \<leftarrow> f64_mul (of_nat col) hw;
                             left \<leftarrow> f64_add margin off;
                             iaw \<leftarrow> imageAreaWidth; w \<leftarrow> sW;
                             d \<leftarrow> f64_sub iaw w; c \<leftarrow> f64_div d 2;
                             f64_add left c },
             rect_y64 = do { hh \<leftarrow> f64_div availableHeight 2;
                             off \<leftarrow> f64_mul (of_nat row) hh;
                             top \<leftarrow> f64_add margin off;
                             iah \<leftarrow> imageAreaHeight; h \<leftarrow> sH;
                             d \<leftarrow> f64_sub iah h; c \<leftarrow> f64_div d 2;
                             f64_add top c } \<rparr>)
     else
       (let scale = do { rw \<leftarrow> f64_div availableWidth imgWidth;
                         rh \<leftarrow> f64_div availableHeight imgHeight;
                         Some (min rw rh) };
            sW = do { s \<leftarrow> scale; f64_mul imgWidth s };
            sH = do { s \<leftarrow> scale; f64_mul imgHeight s }
        in \<lparr> scaledWidth64 = sW, scaledHeight64 = sH,
             rect_x64 = do { w \<leftarrow> sW; d \<leftarrow> f64_sub availableWidth w;
                             c \<leftarrow> f64_div d 2; f64_add margin c },
             rect_y64 = do { h \<leftarrow> sH; d \<leftarrow> f64_sub availableHeight h;
                             c \<leftarrow> f64_div d 2; f64_add margin c } \<rparr>))"

definition cellWidth64 :: "int \<Rightarrow> rat \<Rightarrow> rat option" where
  "cellWidth64 imagesPerPage availableWidth =
     (if imagesPerPage = 2 \<or> imagesPerPage = 4
      then do { hw \<leftarrow> f64_div availableWidth 2; f64_sub hw 10 }
      else Some availableWidth)"

definition cellHeight64 :: "int \<Rightarrow> rat \<Rightarrow> rat option" where
  "cellHeight64 imagesPerPage availableHeight =
     (if imagesPerPage = 4
      then do { hh \<leftarrow> f64_div availableHeight 2; f64_sub hh 10 }
      else Some availableHeight)"

text \<open>
  The unit roundoff of binary64, and a range of magnitudes in which neither the
  quotients nor the products of the calculator overflow or become subnormal.
\<close>

definition f64_unit :: rat where
  "f64_unit = 1 / 2 ^ 53"

definition f64_moderate :: "rat \<Rightarrow> bool" where
  "f64_moderate x = (1 / 2 ^ 300 \<le> x \<and> x \<le> 2 ^ 300)"

section \<open>Configuration\<close>

datatype PageSizeName = A4 | Letter | Legal
datatype Orientation = Portrait | Landscape
datatype Quality = High | Medium | Low

record PageSize =
  width :: real
  height :: real

record ConversionOptions =
  pageSize :: PageSizeName
  orientation :: Orientation
  margin :: real
  quality :: Quality
  filename :: string
  imagesPerPage :: int

fun PAGE_SIZES :: "PageSizeName \<Rightarrow> PageSize" where
  "PAGE_SIZES A4 = \<lparr> width = 595, height = 842 \<rparr>"
| "PAGE_SIZES Letter = \<lparr> width = 612, height = 792 \<rparr>"
| "PAGE_SIZES Legal = \<lparr> width = 612, height = 1008 \<rparr>"

fun QUALITY_SETTINGS :: "Quality \<Rightarrow> real" where
  "QUALITY_SETTINGS High = 0.9"
| "QUALITY_SETTINGS Medium = 0.7"
| "QUALITY_SETTINGS Low = 0.5"

text \<open>
  The first lines of \<open>generatePDF\<close>: the page after the orientation swap, and the area
  left by the margin.
\<close>

record Geometry =
  pageWidth :: real
  pageHeight :: real
  availableWidth :: real
  availableHeight :: real

definition pageGeometry :: "ConversionOptions \<Rightarrow> Geometry" where
  "pageGeometry options =
     (let ps = PAGE_SIZES (pageSize options);
          pw = (if orientation options = Landscape then height ps else width ps);
          ph = (if orientation options = Landscape then width ps else height ps)
      in \<lparr> pageWidth = pw, pageHeight = ph,
           availableWidth = pw - margin options * 2,
           availableHeight = ph - margin options * 2 \<rparr>)"

section \<open>Images and the collaborators of the assembler\<close>

text \<open>
  \<open>String.prototype.includes\<close>: the second string occurs in the first, at any position.
\<close>

fun str_includes :: "string \<Rightarrow> string \<Rightarrow> bool" where
  "str_includes [] sub = (sub = [])"
| "str_includes (c # cs) sub = (prefix sub (c # cs) \<or> str_includes cs sub)"

text \<open>
  A \<open>File\<close> has its declared media type (\<open>type\<close> in the source) and its content; an
  \<open>ImageFile\<close> has the file (\<open>file\<close> in the source) and the display name; the fields
  \<open>id\<close>, \<open>url\<close> and \<open>size\<close> are not read by \<open>generatePDF\<close>. \<open>'b\<close> is the type of byte buffers, \<open>'c\<close> the type of canvases.
\<close>

record 'b File =
  file_type :: string
  file_data :: 'b

record 'b ImageFile =
  image_file :: "'b File"
  name :: string

text \<open>
  What the PDF library and the browser do is not code of this program: their outcomes
  are parameters. \<open>None\<close> is a rejected promise or a thrown exception. An embed call
  that succeeds gives the intrinsic width and height, which the source reads with
  \<open>embeddedImage.scale(1)\<close>. \<open>fileToArrayBuffer\<close>, \<open>imageToCanvas\<close> and
  \<open>canvasToJpeg\<close> are the wrappers of \<open>FileReader\<close>, \<open>Image\<close> and
  \<open>canvas.toDataURL\<close> at the end of the source file.
\<close>

record ('b, 'c) Collaborators =
  fileToArrayBuffer :: "'b File \<Rightarrow> 'b option"
  embedPng :: "'b \<Rightarrow> (real \<times> real) option"
  embedJpg :: "'b \<Rightarrow> (real \<times> real) option"
  imageToCanvas :: "'b File \<Rightarrow> 'c option"
  canvasToJpeg :: "'c \<Rightarrow> real \<Rightarrow> 'b option"

text \<open>
  The handle of an embedded image records which embed call made it and from which
  bytes, with the intrinsic size.
\<close>

datatype EmbedFormat = PNG | JPG

record 'b PDFImage =
  embeddedAs :: EmbedFormat
  embeddedBytes :: 'b
  image_width :: real
  image_height :: real

definition embedded :: "EmbedFormat \<Rightarrow> 'b \<Rightarrow> real \<times> real \<Rightarrow> 'b PDFImage" where
  "embedded fmt bytes dims =
     \<lparr> embeddedAs = fmt, embeddedBytes = bytes, image_width = fst dims, image_height = snd dims \<rparr>"

text \<open>
  The first half of the \<open>try\<close> block of \<open>generatePDF\<close>: load the bytes, choose the
  embed call from the media type, embed. Any failure in it is \<open>None\<close>.
\<close>

definition embedImage ::
  "('b, 'c) Collaborators \<Rightarrow> ConversionOptions \<Rightarrow> 'b ImageFile \<Rightarrow> 'b PDFImage option" where
  "embedImage env options img =
     do {
       imageBytes \<leftarrow> fileToArrayBuffer env (image_file img);
       if str_includes (file_type (image_file img)) ''png'' then
         map_option (embedded PNG imageBytes) (embedPng env imageBytes)
       else if str_includes (file_type (image_file img)) ''jpg''
               \<or> str_includes (file_type (image_file img)) ''jpeg'' then
         map_option (embedded JPG imageBytes) (embedJpg env imageBytes)
       else
         do {
           canvas \<leftarrow> imageToCanvas env (image_file img);
           jpegBytes \<leftarrow> canvasToJpeg env canvas (QUALITY_SETTINGS (quality options));
           map_option (embedded JPG jpegBytes) (embedJpg env jpegBytes)
         }
     }"

section \<open>The page assembler (\<open>generatePDF\<close>)\<close>

text \<open>
  The options object of a \<open>drawImage\<close> call. The y coordinate is flipped as in the
  source: \<open>pageHeight - y - scaledHeight\<close>, with the page height as \<open>ph\<close>.
\<close>

record DrawOptions =
  draw_x :: real
  draw_y :: real
  draw_width :: real
  draw_height :: real

definition drawOptions :: "real \<Rightarrow> Placement \<Rightarrow> DrawOptions" where
  "drawOptions ph p =
     \<lparr> draw_x = rect_x p, draw_y = ph - rect_y p - scaledHeight p,
       draw_width = scaledWidth p, draw_height = scaledHeight p \<rparr>"

text \<open>
  A page is the list of its \<open>drawImage\<close> calls, in order: the image and the options;
  the options are \<open>None\<close> when the calculator divided by zero (the call is then made
  with numbers that are not finite). The document is the list of the pages added before
  the current one, followed by the current page: \<open>currentPage\<close> of the source always
  refers to the page added last.
\<close>

type_synonym 'b Page = "('b PDFImage \<times> DrawOptions option) list"

record 'b Assembly =
  sealedPages :: "'b Page list"
  currentPage :: "'b Page"
  imagesOnCurrentPage :: nat
  progressLog :: "real list"

definition documentPages :: "'b Assembly \<Rightarrow> 'b Page list" where
  "documentPages st = sealedPages st @ [currentPage st]"

text \<open>
  What one successfully embedded image adds to the current page when the slot counter
  is \<open>slot\<close>: the second half of the \<open>try\<close> block up to the draw call.
\<close>

definition drawCall ::
  "ConversionOptions \<Rightarrow> 'b PDFImage \<Rightarrow> nat \<Rightarrow> 'b PDFImage \<times> DrawOptions option" where
  "drawCall options embeddedImage slot =
     (let g = pageGeometry options
      in (embeddedImage,
          map_option (drawOptions (pageHeight g))
            (calculateImageDimensions (image_width embeddedImage) (image_height embeddedImage)
               (availableWidth g) (availableHeight g) (imagesPerPage options) slot
               (margin options) (pageWidth g) (pageHeight g))))"

text \<open>
  One iteration of the \<open>for\<close> loop, for the image at index \<open>i\<close> of \<open>n\<close> images
  (\<open>n\<close> is \<open>images.length\<close>).
  \<open>onProgress\<close> says whether the callback was given; its calls are recorded in
  \<open>progressLog\<close>. The \<open>catch\<close> block only logs, so a failure leaves the state as it
  was after the progress call. The test \<open>i < n - 1\<close> is on natural numbers; for
  \<open>n = 0\<close> it is false, as \<open>i < -1\<close> is in the source. The loop runs the body
  only with \<open>i < n\<close>, so \<open>n\<close> is not zero in the quotient.
\<close>

definition loopBody ::
  "('b, 'c) Collaborators \<Rightarrow> ConversionOptions \<Rightarrow> bool \<Rightarrow> nat \<Rightarrow> nat \<Rightarrow> 'b ImageFile
     \<Rightarrow> 'b Assembly \<Rightarrow> 'b Assembly" where
  "loopBody env options onProgress n i img st =
     (let st1 = (if onProgress
                 then st\<lparr> progressLog := progressLog st @ [real i / real n * 100] \<rparr>
                 else st)
      in case embedImage env options img of
           None \<Rightarrow> st1
         | Some embeddedImage \<Rightarrow>
             (let st2 = st1\<lparr> currentPage := currentPage st1
                                 @ [drawCall options embeddedImage (imagesOnCurrentPage st1)],
                             imagesOnCurrentPage := imagesOnCurrentPage st1 + 1 \<rparr>
              in if imagesPerPage options \<le> int (imagesOnCurrentPage st2) \<and> i < n - 1
                 then st2\<lparr> sealedPages := sealedPages st2 @ [currentPage st2],
                           currentPage := [], imagesOnCurrentPage := 0 \<rparr>
                 else st2))"

fun imageLoop ::
  "('b, 'c) Collaborators \<Rightarrow> ConversionOptions \<Rightarrow> bool \<Rightarrow> nat \<Rightarrow> nat \<Rightarrow> 'b ImageFile list
     \<Rightarrow> 'b Assembly \<Rightarrow> 'b Assembly" where
  "imageLoop env options onProgress n i [] st = st"
| "imageLoop env options onProgress n i (img # rest) st =
     imageLoop env options onProgress n (Suc i) rest
       (loopBody env options onProgress n i img st)"

text \<open>
  \<open>generatePDF\<close>: one page is added before the loop, the loop runs over the images
  with their indices, and the callback, when given, is called with 100. The value is the
  final state: the pages that \<open>pdfDoc.save()\<close> serialises, and the progress calls.
\<close>

definition generatePDF ::
  "('b, 'c) Collaborators \<Rightarrow> 'b ImageFile list \<Rightarrow> ConversionOptions \<Rightarrow> bool \<Rightarrow> 'b Assembly" where
  "generatePDF env images options onProgress =
     (let st0 = \<lparr> sealedPages = [], currentPage = [], imagesOnCurrentPage = 0, progressLog = [] \<rparr>;
          st = imageLoop env options onProgress (length images) 0 images st0
      in if onProgress then st\<lparr> progressLog := progressLog st @ [100] \<rparr> else st)"

section \<open>Reordering the image list (\<open>handleImageReorder\<close>)\<close>

text \<open>
  A JavaScript array read \<open>prev[i]\<close> is \<open>undefined\<close> outside the array, and so an
  array can hold \<open>undefined\<close>: the arrays of the reorder operation are lists of options,
  \<open>None\<close> for \<open>undefined\<close>. \<open>Array.prototype.splice\<close> counts a negative start from
  the end and clamps the start to the array and the delete count to what is left.
\<close>

definition js_nth :: "'a list \<Rightarrow> int \<Rightarrow> 'a option" where
  "js_nth xs i = (if 0 \<le> i \<and> i < int (length xs) then Some (xs ! nat i) else None)"

definition splice_start :: "nat \<Rightarrow> int \<Rightarrow> nat" where
  "splice_start len start =
     (if start < 0 then nat (max (int len + start) 0) else min (nat start) len)"

definition splice_delete :: "'a list \<Rightarrow> int \<Rightarrow> int \<Rightarrow> 'a list" where
  "splice_delete xs start deleteCount =
     (let s = splice_start (length xs) start;
          d = nat (min (max deleteCount 0) (int (length xs) - int s))
      in take s xs @ drop (s + d) xs)"

definition splice_insert :: "'a list \<Rightarrow> int \<Rightarrow> 'a \<Rightarrow> 'a list" where
  "splice_insert xs start item =
     (let s = splice_start (length xs) start in take s xs @ item # drop s xs)"

text \<open>
  The function given to \<open>setImages\<close> by \<open>handleImageReorder\<close>, from the previous list
  to the new one.
\<close>

definition handleImageReorder :: "'a list \<Rightarrow> int \<Rightarrow> int \<Rightarrow> 'a option list" where
  "handleImageReorder prev dragIndex hoverIndex =
     (let draggedImage = js_nth prev dragIndex;
          newImages = map Some prev;
          removed = splice_delete newImages dragIndex 1
      in splice_insert removed hoverIndex draggedImage)"

section \<open>Pages as chunks of slots\<close>

text \<open>
  Two functions used to state where the images go. \<open>chunk m xs\<close> cuts a list into
  consecutive pieces of \<open>m\<close> elements, the last one possibly shorter; \<open>slotCalls\<close>
  gives each embedded image, in order, the draw call of the slot \<open>c mod m\<close>, counting
  \<open>c\<close> up from a starting value.
\<close>

function chunk :: "nat \<Rightarrow> 'a list \<Rightarrow> 'a list list" where
  "chunk m xs = (if m = 0 \<or> xs = [] then [] else take m xs # chunk m (drop m xs))"
  by pat_completeness auto
termination
  by (relation "measure (\<lambda>(m, xs). length xs)") auto

declare chunk.simps [simp del]

fun slotCalls ::
  "ConversionOptions \<Rightarrow> nat \<Rightarrow> nat \<Rightarrow> 'b PDFImage list \<Rightarrow> 'b Page" where
  "slotCalls options m c [] = []"
| "slotCalls options m c (e # es) =
     drawCall options e (c mod m) # slotCalls options m (Suc c) es"

section \<open>Example inputs\<close>

text \<open>
  Concrete collaborators and images, on which the theorems below are instantiated. A byte
  buffer is a list of numbers; the example decoder reads the width and the height from
  its first two entries and fails on a shorter buffer; the example encoder appends the
  quality factor, as a percentage, to the canvas.
\<close>

fun exampleDecode :: "nat list \<Rightarrow> (real \<times> real) option" where
  "exampleDecode (w # h # rest) = Some (real w, real h)"
| "exampleDecode bytes = None"

definition exampleEnv :: "(nat list, nat list) Collaborators" where
  "exampleEnv =
     \<lparr> fileToArrayBuffer = (\<lambda>f. Some (file_data f)),
       embedPng = exampleDecode,
       embedJpg = exampleDecode,
       imageToCanvas = (\<lambda>f. Some (file_data f)),
       canvasToJpeg = (\<lambda>canvas q. Some (canvas @ [nat \<lfloor>q * 100\<rfloor>])) \<rparr>"

definition exampleOptions :: "int \<Rightarrow> ConversionOptions" where
  "exampleOptions ipp =
     \<lparr> pageSize = A4, orientation = Portrait, margin = 20, quality = High,
       filename = ''images-converted'', imagesPerPage = ipp \<rparr>"

definition validA :: "nat list ImageFile" where
  "validA = \<lparr> image_file = \<lparr> file_type = ''image/png'', file_data = [400, 300] \<rparr>,
              name = ''validA.png'' \<rparr>"

definition corruptB :: "nat list ImageFile" where
  "corruptB = \<lparr> image_file = \<lparr> file_type = ''image/png'', file_data = [] \<rparr>,
                name = ''corruptB'' \<rparr>"

definition validC :: "nat list ImageFile" where
  "validC = \<lparr> image_file = \<lparr> file_type = ''image/jpeg'', file_data = [400, 300] \<rparr>,
              name = ''validC.jpg'' \<rparr>"

definition animD :: "nat list ImageFile" where
  "animD = \<lparr> image_file = \<lparr> file_type = ''image/gif'', file_data = [400, 300] \<rparr>,
             name = ''animD.gif'' \<rparr>"

section \<open>Properties of the layout calculator\<close>

lemma calc_one:
  assumes "iw \<noteq> 0" "ih \<noteq> 0"
  shows "calculateImageDimensions iw ih aw ah 1 k m pw ph =
     Some \<lparr> scaledWidth = iw * min (aw / iw) (ah / ih),
            scaledHeight = ih * min (aw / iw) (ah / ih),
            rect_x = m + (aw - iw * min (aw / iw) (ah / ih)) / 2,
            rect_y = m + (ah - ih * min (aw / iw) (ah / ih)) / 2 \<rparr>"
  using assms by (simp add: calculateImageDimensions_def js_div_def Let_def)

text \<open>
  C6. For an A4 page in portrait orientation with margin 20 the available area is
  555 by 802, and for one image of 400 by 300 in the one-per-page mode the calculator
  returns the width 555, the height 416.25, x = 20 and y = 212.875 (top-down, before
  the y-flip of the draw call).
\<close>

theorem scenario_a4_portrait_400x300:
  "pageGeometry \<lparr> pageSize = A4, orientation = Portrait, margin = 20, quality = q,
                  filename = f, imagesPerPage = 1 \<rparr>
     = \<lparr> pageWidth = 595, pageHeight = 842, availableWidth = 555, availableHeight = 802 \<rparr>
   \<and> min (555 / 400) (802 / 300) = (1.3875 :: real)
   \<and> calculateImageDimensions 400 300 555 802 1 0 20 595 842
     = Some \<lparr> scaledWidth = 555, scaledHeight = 416.25, rect_x = 20, rect_y = 212.875 \<rparr>"
  by (simp add: pageGeometry_def calc_one)

lemma calc_scaled:
  assumes "iw \<noteq> 0" "ih \<noteq> 0"
  shows "\<exists>r. calculateImageDimensions iw ih aw ah ipp k m pw ph = Some r
     \<and> scaledWidth r = iw * min (cellWidth ipp aw / iw) (cellHeight ipp ah / ih)
     \<and> scaledHeight r = ih * min (cellWidth ipp aw / iw) (cellHeight ipp ah / ih)"
  using assms
  by (simp add: calculateImageDimensions_def js_div_def Let_def cellWidth_def cellHeight_def)

text \<open>
  C8. With any \<open>imagesPerPage\<close> other than 1, 2 and 4, and all other arguments equal,
  the calculator returns what it returns for \<open>imagesPerPage = 1\<close>; for nonzero image
  dimensions that is a rectangle, not a failure.
\<close>

theorem unrecognized_mode_is_single_layout:
  assumes "ipp \<noteq> 1" "ipp \<noteq> 2" "ipp \<noteq> 4"
  shows "calculateImageDimensions iw ih aw ah ipp k m pw ph
       = calculateImageDimensions iw ih aw ah 1 k m pw ph
     \<and> (iw \<noteq> 0 \<and> ih \<noteq> 0 \<longrightarrow> calculateImageDimensions iw ih aw ah ipp k m pw ph \<noteq> None)"
  using assms by (simp add: calculateImageDimensions_def js_div_def Let_def)

theorem unrecognized_mode_is_single_layout_witness:
  "(3::int) \<noteq> 1 \<and> (3::int) \<noteq> 2 \<and> (3::int) \<noteq> 4
   \<and> calculateImageDimensions 400 300 555 802 3 2 20 595 842
       = calculateImageDimensions 400 300 555 802 1 2 20 595 842
   \<and> (400::real) \<noteq> 0 \<and> (300::real) \<noteq> 0
   \<and> calculateImageDimensions 400 300 555 802 3 2 20 595 842 \<noteq> None
   \<and> calculateImageDimensions 400 300 555 802 3 2 20 595 842
       = Some \<lparr> scaledWidth = 555, scaledHeight = 416.25, rect_x = 20, rect_y = 212.875 \<rparr>"
proof -
  have h: "(3::int) \<noteq> 1" "(3::int) \<noteq> 2" "(3::int) \<noteq> 4" by simp_all
  have e: "calculateImageDimensions 400 300 555 802 1 2 20 595 842
       = Some \<lparr> scaledWidth = 555, scaledHeight = 416.25, rect_x = 20, rect_y = 212.875 \<rparr>"
    by (simp add: calc_one)
  show ?thesis
    using h e unrecognized_mode_is_single_layout [OF h, of 400 300 555 802 2 20 595 842]
    by simp
qed

text \<open>
  C10. For nonzero image dimensions the calculator always returns a rectangle: no
  division of the source has a zero divisor, whatever the mode, the slot and the
  geometry. With a margin of at least half a page dimension (the available area
  \<open>page - margin * 2\<close> is then zero or negative on that axis) and positive image
  dimensions it still returns a rectangle, of width and height at most zero.
\<close>

theorem calculateImageDimensions_total:
  assumes "iw \<noteq> 0" "ih \<noteq> 0"
  shows "(\<exists>r. calculateImageDimensions iw ih aw ah ipp k m pw ph = Some r)
     \<and> (0 < iw \<and> 0 < ih \<and> (pw \<le> m * 2 \<or> ph \<le> m * 2) \<longrightarrow>
          (\<exists>r. calculateImageDimensions iw ih (pw - m * 2) (ph - m * 2) ipp k m pw ph = Some r
             \<and> scaledWidth r \<le> 0 \<and> scaledHeight r \<le> 0))"
proof (intro conjI impI)
  show "\<exists>r. calculateImageDimensions iw ih aw ah ipp k m pw ph = Some r"
    using calc_scaled [OF assms, of aw ah ipp k m pw ph] by blast
next
  assume a: "0 < iw \<and> 0 < ih \<and> (pw \<le> m * 2 \<or> ph \<le> m * 2)"
  let ?cw = "cellWidth ipp (pw - m * 2)" and ?ch = "cellHeight ipp (ph - m * 2)"
  let ?s = "min (?cw / iw) (?ch / ih)"
  obtain r where r: "calculateImageDimensions iw ih (pw - m * 2) (ph - m * 2) ipp k m pw ph = Some r"
      "scaledWidth r = iw * ?s" "scaledHeight r = ih * ?s"
    using calc_scaled [OF assms, of "pw - m * 2" "ph - m * 2" ipp k m pw ph] by auto
  have "?cw \<le> 0 \<or> ?ch \<le> 0" using a by (auto simp: cellWidth_def cellHeight_def)
  then have "?cw / iw \<le> 0 \<or> ?ch / ih \<le> 0" using a by (auto simp: divide_le_0_iff)
  then have s: "?s \<le> 0" by (auto simp: min_le_iff_disj)
  have "scaledWidth r \<le> 0" using r(2) s a by (simp add: mult_le_0_iff)
  moreover have "scaledHeight r \<le> 0" using r(3) s a by (simp add: mult_le_0_iff)
  ultimately show "\<exists>r. calculateImageDimensions iw ih (pw - m * 2) (ph - m * 2) ipp k m pw ph = Some r
             \<and> scaledWidth r \<le> 0 \<and> scaledHeight r \<le> 0"
    using r(1) by blast
qed

theorem calculateImageDimensions_total_witness:
  "(400::real) \<noteq> 0 \<and> (300::real) \<noteq> 0
   \<and> (\<exists>r. calculateImageDimensions 400 300 (-5) 242 1 0 300 595 842 = Some r)
   \<and> ((0::real) < 400 \<and> (0::real) < 300 \<and> ((595::real) \<le> 300 * 2 \<or> (842::real) \<le> 300 * 2))
   \<and> (\<exists>r. calculateImageDimensions 400 300 (595 - 300 * 2) (842 - 300 * 2) 1 0 300 595 842 = Some r
             \<and> scaledWidth r \<le> 0 \<and> scaledHeight r \<le> 0)"
proof -
  have h: "(400::real) \<noteq> 0" "(300::real) \<noteq> 0" by simp_all
  have d: "(0::real) < 400 \<and> (0::real) < 300 \<and> ((595::real) \<le> 300 * 2 \<or> (842::real) \<le> 300 * 2)"
    by simp
  show ?thesis
    using h d calculateImageDimensions_total [OF h, of "-5" 242 1 0 300 595 842]
    by blast
qed

section \<open>Fitting the cell in double arithmetic\<close>

lemma bit_length_pos: "0 < n \<Longrightarrow> 0 < bit_length n"
  by (subst bit_length.simps) simp

lemma bit_length_bounds:
  "0 < n \<Longrightarrow> 2 ^ (bit_length n - 1) \<le> n \<and> n < 2 ^ bit_length n"
proof (induction n rule: bit_length.induct)
  case (1 n)
  have bl: "bit_length n = Suc (bit_length (n div 2))"
    using "1.prems" by (subst bit_length.simps) simp
  show ?case
  proof (cases "n div 2 = 0")
    case True
    then have "n = 1" using "1.prems" by (cases n) auto
    moreover have "bit_length (0::nat) = 0" by (subst bit_length.simps) simp
    ultimately show ?thesis using bl True by simp
  next
    case False
    then have pos: "0 < n div 2" by simp
    have ih: "2 ^ (bit_length (n div 2) - 1) \<le> n div 2" "n div 2 < 2 ^ bit_length (n div 2)"
      using "1.IH" "1.prems" pos by simp_all
    have b: "0 < bit_length (n div 2)" using bit_length_pos [OF pos] .
    then have "(2::nat) ^ bit_length (n div 2) = 2 * 2 ^ (bit_length (n div 2) - 1)"
      by (cases "bit_length (n div 2)") simp_all
    then have lo: "(2::nat) ^ bit_length (n div 2) \<le> n" using ih(1) by linarith
    have "n < 2 * (n div 2) + 2" by linarith
    also have "\<dots> \<le> 2 * 2 ^ bit_length (n div 2)" using ih(2) by linarith
    finally have hi: "n < 2 ^ Suc (bit_length (n div 2))" by simp
    show ?thesis unfolding bl using lo hi by simp
  qed
qed

lemma floor_log2_bounds:
  fixes x :: rat
  assumes "0 < x"
  shows "2 powi floor_log2 x \<le> x" and "x < 2 powi (floor_log2 x + 1)"
proof -
  have both: "2 powi floor_log2 x \<le> x \<and> x < 2 powi (floor_log2 x + 1)"
  proof (cases "1 \<le> x")
    case True
    let ?n = "nat \<lfloor>x\<rfloor>"
    have fl: "1 \<le> \<lfloor>x\<rfloor>" using True by (simp add: le_floor_iff)
    then have n: "0 < ?n" by simp
    have b: "0 < bit_length ?n" using bit_length_pos [OF n] .
    note bb = bit_length_bounds [OF n]
    have e: "floor_log2 x = int (bit_length ?n - 1)"
      using True b by (simp add: floor_log2_def of_nat_diff)
    have "(2::rat) ^ (bit_length ?n - 1) = of_nat (2 ^ (bit_length ?n - 1))" by simp
    also have "\<dots> \<le> of_nat ?n" using bb by (simp only: of_nat_le_iff)
    also have "\<dots> = of_int \<lfloor>x\<rfloor>" using fl by simp
    also have "\<dots> \<le> x" by simp
    finally have lo: "(2::rat) ^ (bit_length ?n - 1) \<le> x" .
    have "\<lfloor>x\<rfloor> < int (2 ^ bit_length ?n)" using bb fl by linarith
    then have "x < of_int (int (2 ^ bit_length ?n))" by (simp only: floor_less_iff)
    then have hi: "x < (2::rat) ^ bit_length ?n" by simp
    have e1: "floor_log2 x + 1 = int (bit_length ?n)" using e b by simp
    show ?thesis unfolding e1 unfolding e using lo hi by simp
  next
    case False
    let ?y = "1 / x"
    let ?n = "nat \<lfloor>?y\<rfloor>"
    let ?k = "int (bit_length ?n) - 1"
    have x1: "x < 1" using False by simp
    then have y1: "1 < ?y" using assms by simp
    have fl: "1 \<le> \<lfloor>?y\<rfloor>" using y1 by (simp add: le_floor_iff)
    then have n: "0 < ?n" by simp
    have b: "0 < bit_length ?n" using bit_length_pos [OF n] .
    note bb = bit_length_bounds [OF n]
    have "\<lfloor>?y\<rfloor> < int (2 ^ bit_length ?n)" using bb fl by linarith
    then have "?y < of_int (int (2 ^ bit_length ?n))" by (simp only: floor_less_iff)
    then have yh: "?y < (2::rat) ^ bit_length ?n" by simp
    have "(2::rat) ^ (bit_length ?n - 1) = of_nat (2 ^ (bit_length ?n - 1))" by simp
    also have "\<dots> \<le> of_nat ?n" using bb by (simp only: of_nat_le_iff)
    also have "\<dots> = of_int \<lfloor>?y\<rfloor>"
    proof -
      have "0 \<le> \<lfloor>?y\<rfloor>" using fl by linarith
      then show ?thesis by (rule of_nat_nat)
    qed
    also have "\<dots> \<le> ?y" by simp
    finally have yl: "(2::rat) ^ (bit_length ?n - 1) \<le> ?y" .
    have xl: "1 / 2 ^ bit_length ?n < x"
      using yh assms by (simp add: field_simps)
    have xh: "x \<le> 1 / 2 ^ (bit_length ?n - 1)"
      using yl assms by (simp add: field_simps)
    have k: "?k = int (bit_length ?n - 1)" using b by (simp add: of_nat_diff)
    have pk: "(2::rat) powi (- ?k) = 1 / 2 ^ (bit_length ?n - 1)"
      unfolding k by (simp add: power_int_minus_divide)
    have k1: "- ?k - 1 = - int (bit_length ?n)" by simp
    have pk1: "(2::rat) powi (- ?k - 1) = 1 / 2 ^ bit_length ?n"
      unfolding k1 by (simp add: power_int_minus_divide)
    show ?thesis
    proof (cases "2 powi (- ?k) \<le> x")
      case True
      then have e: "floor_log2 x = - ?k" using False by (simp add: floor_log2_def Let_def)
      have "x = 1 / 2 ^ (bit_length ?n - 1)" using True xh pk by simp
      have hi: "x < 2 powi (- ?k + 1)"
      proof -
        have "x \<le> 2 powi (- ?k)" using xh pk by simp
        also have "\<dots> < 2 powi (- ?k + 1)" by (rule power_int_strict_increasing) simp_all
        finally show ?thesis .
      qed
      show ?thesis unfolding e using True hi by simp
    next
      case False
      then have e: "floor_log2 x = - ?k - 1" using \<open>\<not> 1 \<le> x\<close> by (simp add: floor_log2_def Let_def)
      have lo: "2 powi (- ?k - 1) \<le> x" using xl pk1 by simp
      have hi: "x < 2 powi (- ?k - 1 + 1)" using False by simp
      show ?thesis unfolding e using lo hi by simp
    qed
  qed
  show "2 powi floor_log2 x \<le> x" using both by simp
  show "x < 2 powi (floor_log2 x + 1)" using both by simp
qed

lemma floor_log2_unique:
  fixes x :: rat
  assumes "0 < x" "2 powi L \<le> x" "x < 2 powi (L + 1)"
  shows "floor_log2 x = L"
proof (rule ccontr)
  assume ne: "floor_log2 x \<noteq> L"
  note b = floor_log2_bounds [OF assms(1)]
  show False
  proof (cases "floor_log2 x < L")
    case True
    then have "(2::rat) powi (floor_log2 x + 1) \<le> 2 powi L"
      by (intro power_int_increasing) simp_all
    then show False using b(2) assms(2) by simp
  next
    case False
    then have "L + 1 \<le> floor_log2 x" using ne by simp
    then have "(2::rat) powi (L + 1) \<le> 2 powi floor_log2 x"
      by (intro power_int_increasing) simp_all
    then show False using b(1) assms(3) by simp
  qed
qed

lemma round_half_even_error: "\<bar>of_int (round_half_even y) - y\<bar> \<le> (1 / 2 :: rat)"
proof -
  have "of_int \<lfloor>y\<rfloor> \<le> y" "y < of_int \<lfloor>y\<rfloor> + 1" by linarith+
  then show ?thesis
    by (auto simp: round_half_even_def Let_def abs_le_iff)
qed

lemma round_half_even_unique:
  assumes "\<bar>of_int m - y\<bar> < (1 / 2 :: rat)"
  shows "round_half_even y = m"
proof -
  have "\<bar>(of_int (round_half_even y) :: rat) - of_int m\<bar> < 1"
    using assms round_half_even_error [of y] by linarith
  then have "\<bar>(of_int (round_half_even y - m) :: rat)\<bar> < 1" by simp
  then have "\<bar>round_half_even y - m\<bar> < 1"
    by (metis of_int_abs of_int_less_1_iff)
  then show ?thesis by simp
qed

lemma round64_certificate:
  assumes "x \<noteq> 0" "2 powi L \<le> \<bar>x\<bar>" "\<bar>x\<bar> < 2 powi (L + 1)"
    and "e = max (L - 52) (- 1074)"
    and "\<bar>of_int m - x / 2 powi e\<bar> < 1 / 2"
    and "\<bar>of_int m * 2 powi e\<bar> < (2 powi 1024 :: rat)"
  shows "round64 x = Some (of_int m * 2 powi e)"
proof -
  have "0 < \<bar>x\<bar>" using assms(1) by simp
  then have L: "floor_log2 \<bar>x\<bar> = L" using assms(2,3) by (rule floor_log2_unique)
  have m: "round_half_even (x / 2 powi e) = m" using assms(5) by (rule round_half_even_unique)
  show ?thesis
    using assms(1,6) unfolding round64_def L Let_def assms(4) [symmetric] m by simp
qed

lemma round64_relative:
  assumes "1 / 2 ^ 1022 \<le> \<bar>x\<bar>" "\<bar>x\<bar> \<le> 2 ^ 1000"
  shows "\<exists>y. round64 x = Some y \<and> \<bar>y - x\<bar> \<le> \<bar>x\<bar> / 2 ^ 53"
proof -
  define a where "a = \<bar>x\<bar>"
  have apos: "0 < a" using assms(1) unfolding a_def
    by (rule less_le_trans [rotated]) simp
  then have x0: "x \<noteq> 0" unfolding a_def by simp
  define e where "e = max (floor_log2 a - 52) (- 1074)"
  define q :: rat where "q = 2 powi e"
  define y where "y = of_int (round_half_even (x / q)) * q"
  have qpos: "0 < q" unfolding q_def by simp
  have r: "round64 x = (if 2 powi 1024 \<le> \<bar>y\<bar> then None else Some y)"
    using x0 by (simp add: round64_def Let_def y_def q_def e_def a_def)
  have "\<bar>y - x\<bar> = \<bar>of_int (round_half_even (x / q)) - x / q\<bar> * q"
  proof -
    have "y - x = (of_int (round_half_even (x / q)) - x / q) * q"
      using qpos by (simp add: y_def field_simps)
    then show ?thesis using qpos by (simp add: abs_mult)
  qed
  also have "\<dots> \<le> (1 / 2) * q"
    using round_half_even_error [of "x / q"] qpos by (intro mult_right_mono) simp_all
  finally have err: "\<bar>y - x\<bar> \<le> q / 2" by simp
  have half: "q / 2 \<le> a / 2 ^ 53"
  proof (cases "- 1074 \<le> floor_log2 a - 52")
    case True
    then have "e = floor_log2 a - 52" by (simp add: e_def)
    then have "q = 2 powi floor_log2 a / 2 ^ 52"
      unfolding q_def by (simp add: power_int_diff)
    also have "\<dots> \<le> a / 2 ^ 52"
      using floor_log2_bounds(1) [OF apos] by (simp add: divide_right_mono)
    finally show ?thesis by simp
  next
    case False
    then have "e = - 1074" by (simp add: e_def)
    then have "q = 1 / 2 ^ 1074" unfolding q_def by (simp add: power_int_minus_divide)
    then have "q / 2 = (1 / 2 ^ 1022) / 2 ^ 53" by simp
    also have "\<dots> \<le> a / 2 ^ 53"
      using assms(1) unfolding a_def by (intro divide_right_mono) simp_all
    finally show ?thesis .
  qed
  have rel: "\<bar>y - x\<bar> \<le> a / 2 ^ 53" using err half by linarith
  have "a / 2 ^ 53 \<le> a" using apos by (simp add: field_simps)
  then have "\<bar>y\<bar> \<le> 2 * a" using rel unfolding a_def by linarith
  also have "\<dots> \<le> 2 * 2 ^ 1000" using assms(2) unfolding a_def by simp
  also have "\<dots> < (2 powi 1024 :: rat)" by simp
  finally have "\<not> 2 powi 1024 \<le> \<bar>y\<bar>" by simp
  then have "round64 x = Some y" using r by simp
  then show ?thesis using rel unfolding a_def by blast
qed

lemma f64_unit_range: "0 < f64_unit" "f64_unit < 1"
  by (simp_all add: f64_unit_def)

lemma relative_bounds:
  fixes x y u :: rat
  assumes "\<bar>y - x\<bar> \<le> x * u"
  shows "x * (1 - u) \<le> y" and "y \<le> x * (1 + u)"
  using assms by (simp_all add: abs_le_iff algebra_simps)

lemma round64_positive:
  assumes "1 / 2 ^ 1022 \<le> x" "x \<le> 2 ^ 1000"
  shows "\<exists>y. round64 x = Some y \<and> x * (1 - f64_unit) \<le> y \<and> y \<le> x * (1 + f64_unit) \<and> 0 < y"
proof -
  have xpos: "0 < x" using assms(1) by (rule less_le_trans [rotated]) simp
  then have ax: "\<bar>x\<bar> = x" by simp
  obtain y where y: "round64 x = Some y" "\<bar>y - x\<bar> \<le> \<bar>x\<bar> / 2 ^ 53"
    using round64_relative [of x] assms ax by auto
  have "\<bar>y - x\<bar> \<le> x * f64_unit" using y(2) ax by (simp add: f64_unit_def)
  note rb = relative_bounds [OF this]
  have "0 < x * (1 - f64_unit)" using xpos f64_unit_range by simp
  then have "0 < y" using rb(1) by linarith
  then show ?thesis using y(1) rb by blast
qed

lemma moderate_quotient:
  assumes "f64_moderate c" "f64_moderate d"
  shows "1 / 2 ^ 600 \<le> c / d" "c / d \<le> 2 ^ 600"
proof -
  define lo :: rat where "lo = 1 / 2 ^ 300"
  define hi :: rat where "hi = 2 ^ 300"
  have lohi: "0 < lo" "0 < hi" by (simp_all add: lo_def hi_def)
  have c: "lo \<le> c" "c \<le> hi" and d: "lo \<le> d" "d \<le> hi"
    using assms unfolding f64_moderate_def lo_def hi_def by blast+
  have dpos: "0 < d" using d(1) lohi(1) by linarith
  have "lo / hi \<le> c / d" by (rule frac_le) (use c d lohi dpos in simp_all)
  moreover have "lo / hi = 1 / 2 ^ 600" by (simp add: lo_def hi_def)
  ultimately show "1 / 2 ^ 600 \<le> c / d" by simp
  have "c / d \<le> hi / lo" by (rule frac_le) (use c d lohi dpos in linarith)+
  moreover have "hi / lo = 2 ^ 600" by (simp add: lo_def hi_def)
  ultimately show "c / d \<le> 2 ^ 600" by simp
qed

lemma moderate_pos: "f64_moderate x \<Longrightarrow> 0 < x"
  unfolding f64_moderate_def by (rule less_le_trans [rotated], erule conjunct1) simp

lemma moderate_product:
  fixes d s :: rat
  assumes "f64_moderate d"
    and "1 / 2 ^ 600 * (1 - f64_unit) \<le> s" "s \<le> 2 ^ 600 * (1 + f64_unit)"
  shows "1 / 2 ^ 1022 \<le> d * s" "d * s \<le> 2 ^ 1000"
proof -
  define lo :: rat where "lo = 1 / 2 ^ 300"
  define hi :: rat where "hi = 2 ^ 300"
  define sl :: rat where "sl = 1 / 2 ^ 600 * (1 - f64_unit)"
  define sh :: rat where "sh = 2 ^ 600 * (1 + f64_unit)"
  have d: "lo \<le> d" "d \<le> hi"
    using assms(1) unfolding f64_moderate_def lo_def hi_def by blast+
  have s: "sl \<le> s" "s \<le> sh" using assms(2,3) unfolding sl_def sh_def by blast+
  have c: "0 < lo" "0 < hi" "0 < sl" "0 < sh"
    by (simp_all add: lo_def hi_def sl_def sh_def f64_unit_def)
  have n: "1 / 2 ^ 1022 \<le> lo * sl" "hi * sh \<le> 2 ^ 1000"
    by (simp_all add: lo_def hi_def sl_def sh_def f64_unit_def)
  have dpos: "0 < d" and spos: "0 < s" using d(1) s(1) c by linarith+
  have "lo * sl \<le> d * s" by (rule mult_mono) (use d s c in simp_all)
  then show "1 / 2 ^ 1022 \<le> d * s" using n(1) by linarith
  have "d * s \<le> hi * sh" by (rule mult_mono) (use d s c dpos spos in simp_all)
  then show "d * s \<le> 2 ^ 1000" using n(2) by linarith
qed

lemma fit64:
  assumes iw: "f64_moderate iw" and ih: "f64_moderate ih"
    and cw: "f64_moderate cw" and ch: "f64_moderate ch"
  shows "\<exists>a b w h. f64_div cw iw = Some a \<and> f64_div ch ih = Some b
     \<and> f64_mul iw (min a b) = Some w \<and> f64_mul ih (min a b) = Some h
     \<and> 0 < w \<and> 0 < h
     \<and> w \<le> cw * (1 + f64_unit) ^ 2 \<and> h \<le> ch * (1 + f64_unit) ^ 2
     \<and> w * ih * (1 - f64_unit) \<le> h * iw * (1 + f64_unit)
     \<and> h * iw * (1 - f64_unit) \<le> w * ih * (1 + f64_unit)"
proof -
  define u where "u = f64_unit"
  have u: "0 < u" "u < 1" using f64_unit_range by (simp_all add: u_def)
  have u1: "0 < 1 + u" "0 < 1 - u" using u by simp_all
  have pos: "0 < iw" "0 < ih" "0 < cw" "0 < ch"
    using assms by (simp_all add: moderate_pos)
  define R :: rat where "R = 1 / 2 ^ 600"
  define Q :: rat where "Q = 2 ^ 600"
  have RQ: "1 / 2 ^ 1022 \<le> R" "Q \<le> 2 ^ 1000" "0 < R" "0 < Q" by (simp_all add: R_def Q_def)
  have x1: "R \<le> cw / iw" "cw / iw \<le> Q"
    using moderate_quotient [OF cw iw] by (simp_all add: R_def Q_def)
  have x2: "R \<le> ch / ih" "ch / ih \<le> Q"
    using moderate_quotient [OF ch ih] by (simp_all add: R_def Q_def)
  have r1: "1 / 2 ^ 1022 \<le> cw / iw" "cw / iw \<le> 2 ^ 1000" using x1 RQ by linarith+
  have r2: "1 / 2 ^ 1022 \<le> ch / ih" "ch / ih \<le> 2 ^ 1000" using x2 RQ by linarith+
  obtain a where a: "round64 (cw / iw) = Some a" "cw / iw * (1 - u) \<le> a"
      "a \<le> cw / iw * (1 + u)" "0 < a"
    using round64_positive [OF r1] unfolding u_def by blast
  obtain bb where bb: "round64 (ch / ih) = Some bb" "ch / ih * (1 - u) \<le> bb"
      "bb \<le> ch / ih * (1 + u)" "0 < bb"
    using round64_positive [OF r2] unfolding u_def by blast
  define s where "s = min a bb"
  have spos: "0 < s" using a(4) bb(4) by (simp add: s_def)
  have sa: "s \<le> a" and sb: "s \<le> bb" by (simp_all add: s_def)
  have "R * (1 - u) \<le> cw / iw * (1 - u)" "R * (1 - u) \<le> ch / ih * (1 - u)"
    using x1(1) x2(1) u1(2) by (intro mult_right_mono; simp)+
  then have "R * (1 - u) \<le> a" "R * (1 - u) \<le> bb" using a(2) bb(2) by linarith+
  then have slo: "R * (1 - u) \<le> s" unfolding s_def by simp
  have "cw / iw * (1 + u) \<le> Q * (1 + u)"
    using x1(2) u1(1) by (intro mult_right_mono; simp)
  then have shi: "s \<le> Q * (1 + u)" using sa a(3) by linarith
  have slo': "1 / 2 ^ 600 * (1 - f64_unit) \<le> s" using slo unfolding R_def u_def .
  have shi': "s \<le> 2 ^ 600 * (1 + f64_unit)" using shi unfolding Q_def u_def .
  note riw = moderate_product [OF iw slo' shi']
  note rih = moderate_product [OF ih slo' shi']
  obtain w where w: "round64 (iw * s) = Some w" "iw * s * (1 - u) \<le> w"
      "w \<le> iw * s * (1 + u)" "0 < w"
    using round64_positive [OF riw] unfolding u_def by blast
  obtain h where h: "round64 (ih * s) = Some h" "ih * s * (1 - u) \<le> h"
      "h \<le> ih * s * (1 + u)" "0 < h"
    using round64_positive [OF rih] unfolding u_def by blast
  have "iw * s \<le> iw * a" using sa pos(1) by (intro mult_left_mono; simp)
  also have "\<dots> \<le> iw * (cw / iw * (1 + u))"
    using a(3) pos(1) by (intro mult_left_mono; simp)
  also have "\<dots> = cw * (1 + u)" using pos(1) by simp
  finally have "iw * s * (1 + u) \<le> cw * (1 + u) * (1 + u)"
    using u1(1) by (intro mult_right_mono; simp)
  then have wb: "w \<le> cw * (1 + u) ^ 2" using w(3) by (simp add: power2_eq_square mult.assoc)
  have "ih * s \<le> ih * bb" using sb pos(2) by (intro mult_left_mono; simp)
  also have "\<dots> \<le> ih * (ch / ih * (1 + u))"
    using bb(3) pos(2) by (intro mult_left_mono; simp)
  also have "\<dots> = ch * (1 + u)" using pos(2) by simp
  finally have "ih * s * (1 + u) \<le> ch * (1 + u) * (1 + u)"
    using u1(1) by (intro mult_right_mono; simp)
  then have hb: "h \<le> ch * (1 + u) ^ 2" using h(3) by (simp add: power2_eq_square mult.assoc)
  have "w * ih * (1 - u) \<le> (iw * s * (1 + u)) * ih * (1 - u)"
    using w(3) pos(2) u1(2) by (intro mult_right_mono) simp_all
  also have "\<dots> = (ih * s * (1 - u)) * (iw * (1 + u))" by (simp add: algebra_simps)
  also have "\<dots> \<le> h * (iw * (1 + u))"
    using h(2) pos(1) u1(1) by (intro mult_right_mono) simp_all
  finally have q1: "w * ih * (1 - u) \<le> h * iw * (1 + u)" by (simp add: mult.assoc)
  have "h * iw * (1 - u) \<le> (ih * s * (1 + u)) * iw * (1 - u)"
    using h(3) pos(1) u1(2) by (intro mult_right_mono) simp_all
  also have "\<dots> = (iw * s * (1 - u)) * (ih * (1 + u))" by (simp add: algebra_simps)
  also have "\<dots> \<le> w * (ih * (1 + u))"
    using w(2) pos(2) u1(1) by (intro mult_right_mono) simp_all
  finally have q2: "h * iw * (1 - u) \<le> w * ih * (1 + u)" by (simp add: mult.assoc)
  have da: "f64_div cw iw = Some a" using a(1) pos(1) by (simp add: f64_div_def)
  have db: "f64_div ch ih = Some bb" using bb(1) pos(2) by (simp add: f64_div_def)
  have mw: "f64_mul iw (min a bb) = Some w" using w(1) by (simp add: f64_mul_def s_def)
  have mh: "f64_mul ih (min a bb) = Some h" using h(1) by (simp add: f64_mul_def s_def)
  show ?thesis
    using da db mw mh w(4) h(4) wb hb q1 q2 unfolding u_def by blast
qed

lemma legal_step_0: "f64_div 572 1170 = Some (8807039271302303 / 18014398509481984)"
proof -
  have "round64 (572 / 1170) = Some (of_int 8807039271302303 * 2 powi (- 54))"
    by (rule round64_certificate [where L = "(- 2)"]) simp_all
  then show ?thesis by (simp add: f64_div_def)
qed

lemma legal_step_1: "f64_div 968 2532 = Some (860877653889147 / 2251799813685248)"
proof -
  have "round64 (968 / 2532) = Some (of_int 6887021231113176 * 2 powi (- 54))"
    by (rule round64_certificate [where L = "(- 2)"]) simp_all
  then show ?thesis by (simp add: f64_div_def)
qed

lemma legal_step_2: "f64_mul 1170 (860877653889147 / 2251799813685248) = Some (1967239951270121 / 4398046511104)"
proof -
  have "round64 (1170 * (860877653889147 / 2251799813685248)) = Some (of_int 7868959805080484 * 2 powi (- 44))"
    by (rule round64_certificate [where L = "8"]) simp_all
  then show ?thesis by (simp add: f64_mul_def)
qed

lemma legal_step_3: "f64_mul 2532 (860877653889147 / 2251799813685248) = Some (8514618045497345 / 8796093022208)"
proof -
  have "round64 (2532 * (860877653889147 / 2251799813685248)) = Some (of_int 8514618045497345 * 2 powi (- 43))"
    by (rule round64_certificate [where L = "9"]) simp_all
  then show ?thesis by (simp add: f64_mul_def)
qed

lemma legal_step_4: "f64_sub 572 (1967239951270121 / 4398046511104) = Some (548442653081367 / 4398046511104)"
proof -
  have "round64 (572 - (1967239951270121 / 4398046511104)) = Some (of_int 8775082449301872 * 2 powi (- 46))"
    by (rule round64_certificate [where L = "6"]) simp_all
  then show ?thesis by (simp add: f64_sub_def)
qed

lemma legal_step_5: "f64_div (548442653081367 / 4398046511104) 2 = Some (548442653081367 / 8796093022208)"
proof -
  have "round64 ((548442653081367 / 4398046511104) / 2) = Some (of_int 8775082449301872 * 2 powi (- 47))"
    by (rule round64_certificate [where L = "5"]) simp_all
  then show ?thesis by (simp add: f64_div_def)
qed

lemma legal_step_6: "f64_add 20 (548442653081367 / 8796093022208) = Some (724364513525527 / 8796093022208)"
proof -
  have "round64 (20 + (548442653081367 / 8796093022208)) = Some (of_int 5794916108204216 * 2 powi (- 46))"
    by (rule round64_certificate [where L = "6"]) simp_all
  then show ?thesis by (simp add: f64_add_def)
qed

lemma legal_step_7: "f64_sub 968 (8514618045497345 / 8796093022208) = Some (- (1 / 8796093022208))"
proof -
  have "round64 (968 - (8514618045497345 / 8796093022208)) = Some (of_int (- 4503599627370496) * 2 powi (- 95))"
    by (rule round64_certificate [where L = "(- 43)"]) simp_all
  then show ?thesis by (simp add: f64_sub_def)
qed

lemma legal_step_8: "f64_div (- (1 / 8796093022208)) 2 = Some (- (1 / 17592186044416))"
proof -
  have "round64 ((- (1 / 8796093022208)) / 2) = Some (of_int (- 4503599627370496) * 2 powi (- 96))"
    by (rule round64_certificate [where L = "(- 44)"]) simp_all
  then show ?thesis by (simp add: f64_div_def)
qed

lemma legal_step_9: "f64_add 20 (- (1 / 17592186044416)) = Some (351843720888319 / 17592186044416)"
proof -
  have "round64 (20 + (- (1 / 17592186044416))) = Some (of_int 5629499534213104 * 2 powi (- 48))"
    by (rule round64_certificate [where L = "4"]) simp_all
  then show ?thesis by (simp add: f64_add_def)
qed


text \<open>
  The exact bound fails in double arithmetic. On a Legal page in portrait orientation
  with margin 20 the available area is 572 by 968; for an image of 1170 by 2532 in the
  one-per-page mode the scale is the double nearest to 968 / 2532, and the double
  nearest to 2532 times this scale is \<open>968 + 2 ^ -43\<close>, which is more than the height
  of the cell; the ratio of the scaled width to the scaled height is not 1170 / 2532.
\<close>

theorem double_rounding_exceeds_cell:
  "cellWidth64 1 572 = Some 572 \<and> cellHeight64 1 968 = Some 968
   \<and> calculateImageDimensions64 1170 2532 572 968 1 0 20 612 1008
       = \<lparr> scaledWidth64 = Some (1967239951270121 / 4398046511104),
           scaledHeight64 = Some (8514618045497345 / 8796093022208),
           rect_x64 = Some (724364513525527 / 8796093022208),
           rect_y64 = Some (351843720888319 / 17592186044416) \<rparr>
   \<and> \<not> (8514618045497345 / 8796093022208 \<le> (968 :: rat))
   \<and> (1967239951270121 / 4398046511104) / (8514618045497345 / 8796093022208)
       \<noteq> (1170 / 2532 :: rat)"
proof -
  have c: "cellWidth64 1 572 = Some 572" "cellHeight64 1 968 = Some 968"
    by (simp_all add: cellWidth64_def cellHeight64_def)
  have mn: "min (8807039271302303 / 18014398509481984) (860877653889147 / 2251799813685248)
      = (860877653889147 / 2251799813685248 :: rat)"
    by simp
  have r: "calculateImageDimensions64 1170 2532 572 968 1 0 20 612 1008
       = \<lparr> scaledWidth64 = Some (1967239951270121 / 4398046511104),
           scaledHeight64 = Some (8514618045497345 / 8796093022208),
           rect_x64 = Some (724364513525527 / 8796093022208),
           rect_y64 = Some (351843720888319 / 17592186044416) \<rparr>"
    unfolding calculateImageDimensions64_def
    by (simp add: Let_def legal_step_0 legal_step_1 mn legal_step_2 legal_step_3 legal_step_4
          legal_step_5 legal_step_6 legal_step_7 legal_step_8 legal_step_9)
  have n: "\<not> (8514618045497345 / 8796093022208 \<le> (968 :: rat))" by simp
  have q: "(1967239951270121 / 4398046511104) / (8514618045497345 / 8796093022208)
       \<noteq> (1170 / 2532 :: rat)" by simp
  show ?thesis by (intro conjI) (fact c r n q)+
qed

text \<open>
  C4. In double arithmetic, for an image width and height and a cell width and height
  between \<open>2 ^ -300\<close> and \<open>2 ^ 300\<close>, in each of the modes 1, 2 and 4, the scaled width
  and height are positive doubles, at most the cell width and the cell height times
  \<open>(1 + 2 ^ -53) ^ 2\<close>, and the ratio of scaled width to scaled height is the ratio of
  image width to image height up to the factor \<open>(1 + 2 ^ -53) / (1 - 2 ^ -53)\<close> in
  either direction: the image fits its cell and keeps its aspect ratio up to rounding.
  The cell is the available area, or the doubles \<open>availableWidth / 2 - 10\<close> (two and
  four per page) and \<open>availableHeight / 2 - 10\<close> (four per page).
\<close>

theorem fit_within_cell_up_to_rounding:
  assumes "ipp = 1 \<or> ipp = 2 \<or> ipp = 4"
    and "cellWidth64 ipp aw = Some cw" "cellHeight64 ipp ah = Some ch"
    and "f64_moderate iw" "f64_moderate ih" "f64_moderate cw" "f64_moderate ch"
  shows "\<exists>w h.
       scaledWidth64 (calculateImageDimensions64 iw ih aw ah ipp k m pw ph) = Some w
     \<and> scaledHeight64 (calculateImageDimensions64 iw ih aw ah ipp k m pw ph) = Some h
     \<and> 0 < w \<and> 0 < h
     \<and> w \<le> cw * (1 + f64_unit) ^ 2
     \<and> h \<le> ch * (1 + f64_unit) ^ 2
     \<and> w * ih * (1 - f64_unit) \<le> h * iw * (1 + f64_unit)
     \<and> h * iw * (1 - f64_unit) \<le> w * ih * (1 + f64_unit)"
proof -
  obtain a b w h where f: "f64_div cw iw = Some a" "f64_div ch ih = Some b"
      "f64_mul iw (min a b) = Some w" "f64_mul ih (min a b) = Some h"
    and r: "0 < w" "0 < h" "w \<le> cw * (1 + f64_unit) ^ 2" "h \<le> ch * (1 + f64_unit) ^ 2"
      "w * ih * (1 - f64_unit) \<le> h * iw * (1 + f64_unit)"
      "h * iw * (1 - f64_unit) \<le> w * ih * (1 + f64_unit)"
    using fit64 [OF assms(4,5,6,7)] by blast
  have "scaledWidth64 (calculateImageDimensions64 iw ih aw ah ipp k m pw ph) = Some w
      \<and> scaledHeight64 (calculateImageDimensions64 iw ih aw ah ipp k m pw ph) = Some h"
    using assms(1)
  proof (elim disjE)
    assume i: "ipp = 1"
    then have "cw = aw" "ch = ah" using assms(2,3) by (simp_all add: cellWidth64_def cellHeight64_def)
    then show ?thesis using i f by (simp add: calculateImageDimensions64_def Let_def)
  next
    assume i: "ipp = 2"
    then have c: "(f64_div aw 2 \<bind> (\<lambda>hw. f64_sub hw 10)) = Some cw" "ch = ah"
      using assms(2,3) by (simp_all add: cellWidth64_def cellHeight64_def)
    show ?thesis using i f c(2) by (simp add: calculateImageDimensions64_def Let_def c(1))
  next
    assume i: "ipp = 4"
    then have c: "(f64_div aw 2 \<bind> (\<lambda>hw. f64_sub hw 10)) = Some cw"
        "(f64_div ah 2 \<bind> (\<lambda>hh. f64_sub hh 10)) = Some ch"
      using assms(2,3) by (simp_all add: cellWidth64_def cellHeight64_def)
    show ?thesis using i f by (simp add: calculateImageDimensions64_def Let_def c)
  qed
  then show ?thesis using r by blast
qed

lemma a4_cell_step_0: "f64_div 555 2 = Some (555 / 2)"
proof -
  have "round64 (555 / 2) = Some (of_int 4881831627325440 * 2 powi (- 44))"
    by (rule round64_certificate [where L = "8"]) simp_all
  then show ?thesis by (simp add: f64_div_def)
qed

lemma a4_cell_step_1: "f64_sub (555 / 2) 10 = Some (535 / 2)"
proof -
  have "round64 ((555 / 2) - 10) = Some (of_int 4705909766881280 * 2 powi (- 44))"
    by (rule round64_certificate [where L = "8"]) simp_all
  then show ?thesis by (simp add: f64_sub_def)
qed

lemma a4_cell_step_2: "f64_div 802 2 = Some 401"
proof -
  have "round64 (802 / 2) = Some (of_int 7054466603810816 * 2 powi (- 44))"
    by (rule round64_certificate [where L = "8"]) simp_all
  then show ?thesis by (simp add: f64_div_def)
qed

lemma a4_cell_step_3: "f64_sub 401 10 = Some 391"
proof -
  have "round64 (401 - 10) = Some (of_int 6878544743366656 * 2 powi (- 44))"
    by (rule round64_certificate [where L = "8"]) simp_all
  then show ?thesis by (simp add: f64_sub_def)
qed

theorem fit_within_cell_up_to_rounding_witness:
  "((4::int) = 1 \<or> (4::int) = 2 \<or> (4::int) = 4)
   \<and> cellWidth64 4 555 = Some (535 / 2) \<and> cellHeight64 4 802 = Some 391
   \<and> f64_moderate 400 \<and> f64_moderate 300 \<and> f64_moderate (535 / 2) \<and> f64_moderate 391
   \<and> (\<exists>w h.
         scaledWidth64 (calculateImageDimensions64 400 300 555 802 4 3 20 595 842) = Some w
       \<and> scaledHeight64 (calculateImageDimensions64 400 300 555 802 4 3 20 595 842) = Some h
       \<and> 0 < w \<and> 0 < h
       \<and> w \<le> (535 / 2) * (1 + f64_unit) ^ 2
       \<and> h \<le> 391 * (1 + f64_unit) ^ 2
       \<and> w * 300 * (1 - f64_unit) \<le> h * 400 * (1 + f64_unit)
       \<and> h * 400 * (1 - f64_unit) \<le> w * 300 * (1 + f64_unit))"
proof -
  have i: "(4::int) = 1 \<or> (4::int) = 2 \<or> (4::int) = 4" by simp
  have cw: "cellWidth64 4 555 = Some (535 / 2)"
    by (simp add: cellWidth64_def a4_cell_step_0 a4_cell_step_1)
  have ch: "cellHeight64 4 802 = Some 391"
    by (simp add: cellHeight64_def a4_cell_step_2 a4_cell_step_3)
  have m: "f64_moderate 400" "f64_moderate 300" "f64_moderate (535 / 2)" "f64_moderate 391"
    by (simp_all add: f64_moderate_def)
  note t = fit_within_cell_up_to_rounding [OF i cw ch m, of 3 20 595 842]
  show ?thesis by (intro conjI) (fact i cw ch m t)+
qed

section \<open>Progress reporting\<close>

lemma loopBody_progress:
  "progressLog (loopBody env options onProgress n i img st) =
     (if onProgress then progressLog st @ [real i / real n * 100] else progressLog st)"
  by (simp add: loopBody_def Let_def split: option.split)

lemma imageLoop_progress:
  "progressLog (imageLoop env options True n i imgs st) =
     progressLog st @ map (\<lambda>k. real k / real n * 100) [i..<i + length imgs]"
proof (induction imgs arbitrary: i st)
  case Nil
  show ?case by simp
next
  case (Cons img rest)
  have "[i..<i + length (img # rest)] = i # [Suc i..<Suc i + length rest]"
    by (simp add: upt_rec)
  then show ?case by (simp add: Cons.IH loopBody_progress)
qed

lemma generatePDF_progress:
  "progressLog (generatePDF env images options True) =
     map (\<lambda>k. real k / real (length images) * 100) [0..<length images] @ [100]"
  using imageLoop_progress [of env options "length images" 0 images]
  by (simp add: generatePDF_def Let_def)

lemma fraction_le_hundred:
  fixes k n :: nat
  assumes "k < n"
  shows "real k / real n * 100 \<le> (real n - 1) / real n * 100"
    and "real k / real n * 100 \<le> 100"
proof -
  have n: "0 < real n" using assms by simp
  have "real k \<le> real n - 1" using assms by linarith
  then have "real k / real n \<le> (real n - 1) / real n"
    using n by (simp add: divide_right_mono)
  then show "real k / real n * 100 \<le> (real n - 1) / real n * 100"
    by (rule mult_right_mono) simp
  have "real k / real n \<le> 1" using assms n by simp
  then have "real k / real n * 100 \<le> 1 * 100"
    by (rule mult_right_mono) simp
  then show "real k / real n * 100 \<le> 100" by simp
qed

lemma fraction_mono:
  fixes j k n :: nat
  assumes "j \<le> k"
  shows "real j / real n * 100 \<le> real k / real n * 100"
proof -
  have "real j / real n \<le> real k / real n"
    using assms by (simp add: divide_right_mono)
  then show ?thesis by (rule mult_right_mono) simp
qed

lemma sorted_fractions:
  "sorted (map (\<lambda>k. real k / real n * 100) [0..<n] @ [100])"
proof -
  have "sorted (map (\<lambda>k. real k / real n * 100) [0..<n])"
    unfolding sorted_map
    by (rule sorted_wrt_mono_rel [of _ "(\<le>)"]) (use fraction_mono in simp_all)
  moreover have "\<forall>x \<in> set (map (\<lambda>k. real k / real n * 100) [0..<n]). x \<le> 100"
    using fraction_le_hundred(2) by auto
  ultimately show ?thesis by (simp add: sorted_append)
qed

text \<open>
  C3. With a progress callback, \<open>generatePDF\<close> on \<open>n\<close> images calls it with
  \<open>i / n * 100\<close> before the image at index \<open>i\<close>, for each \<open>i\<close> in order, and
  once with 100 after the loop, and with nothing else. The sequence of values is
  non-decreasing, every value before the final one is at most \<open>(n - 1) / n * 100\<close>,
  the final value is 100, and for the empty list the only value is 100.
\<close>

theorem progress_sequence:
  "progressLog (generatePDF env images options True)
     = map (\<lambda>i. real i / real (length images) * 100) [0..<length images] @ [100]
   \<and> sorted (progressLog (generatePDF env images options True))
   \<and> (\<forall>i < length images.
         progressLog (generatePDF env images options True) ! i
           = real i / real (length images) * 100
       \<and> progressLog (generatePDF env images options True) ! i
           \<le> (real (length images) - 1) / real (length images) * 100)
   \<and> length (progressLog (generatePDF env images options True)) = length images + 1
   \<and> last (progressLog (generatePDF env images options True)) = 100
   \<and> (images = [] \<longrightarrow> progressLog (generatePDF env images options True) = [100])"
proof -
  let ?n = "length images"
  let ?log = "progressLog (generatePDF env images options True)"
  have e: "?log = map (\<lambda>i. real i / real ?n * 100) [0..<?n] @ [100]"
    by (rule generatePDF_progress)
  have s: "sorted ?log" unfolding e by (rule sorted_fractions)
  have n: "\<forall>i < ?n. ?log ! i = real i / real ?n * 100
       \<and> ?log ! i \<le> (real ?n - 1) / real ?n * 100"
  proof (intro allI impI)
    fix i assume i: "i < ?n"
    then have "?log ! i = real i / real ?n * 100"
      unfolding e by (simp add: nth_append)
    then show "?log ! i = real i / real ?n * 100
       \<and> ?log ! i \<le> (real ?n - 1) / real ?n * 100"
      using fraction_le_hundred(1) [OF i] by simp
  qed
  have l: "length ?log = ?n + 1" unfolding e by simp
  have f: "last ?log = 100" unfolding e by simp
  have z: "images = [] \<longrightarrow> ?log = [100]" unfolding e by simp
  show ?thesis using e s n l f z by blast
qed

theorem progress_sequence_witness:
  "progressLog (generatePDF exampleEnv [validA, corruptB, validC] (exampleOptions 1) True)
     = [0, 100 / 3, 200 / 3, 100]
   \<and> sorted (progressLog (generatePDF exampleEnv [validA, corruptB, validC] (exampleOptions 1) True))
   \<and> (2::nat) < length [validA, corruptB, validC]
   \<and> progressLog (generatePDF exampleEnv [validA, corruptB, validC] (exampleOptions 1) True) ! 2
       \<le> (real (length [validA, corruptB, validC]) - 1) / real (length [validA, corruptB, validC]) * 100
   \<and> last (progressLog (generatePDF exampleEnv [validA, corruptB, validC] (exampleOptions 1) True)) = 100
   \<and> ([] :: nat list ImageFile list) = []
   \<and> progressLog (generatePDF exampleEnv [] (exampleOptions 1) True) = [100]"
proof -
  let ?imgs = "[validA, corruptB, validC]"
  let ?log = "progressLog (generatePDF exampleEnv ?imgs (exampleOptions 1) True)"
  note t = progress_sequence [of exampleEnv ?imgs "exampleOptions 1"]
  note u = progress_sequence [of exampleEnv "[]" "exampleOptions 1"]
  have up: "[0..<3] = [0, 1, 2::nat]" by (simp add: upt_rec)
  have l: "length ?imgs = 3" by simp
  have e: "?log = [0, 100 / 3, 200 / 3, 100]"
    using t unfolding l by (simp add: up)
  have s: "sorted ?log" using t by blast
  have i: "(2::nat) < length ?imgs" by simp
  have b: "?log ! 2 \<le> (real (length ?imgs) - 1) / real (length ?imgs) * 100"
    using t i by blast
  have f: "last ?log = 100" using t by blast
  have z: "([] :: nat list ImageFile list) = []" by simp
  have n: "progressLog (generatePDF exampleEnv [] (exampleOptions 1) True) = [100]"
    using u z by blast
  show ?thesis by (intro conjI) (fact e s i b f z n)+
qed

section \<open>Pages of the document\<close>

lemma documentPages_generatePDF:
  "documentPages (generatePDF env images options onProgress) =
     documentPages (imageLoop env options onProgress (length images) 0 images
       \<lparr> sealedPages = [], currentPage = [], imagesOnCurrentPage = 0, progressLog = [] \<rparr>)"
  by (simp add: generatePDF_def documentPages_def Let_def)

lemma chunk_Nil: "chunk m [] = []"
  by (simp add: chunk.simps)

lemma chunk_step: "0 < m \<Longrightarrow> xs \<noteq> [] \<Longrightarrow> chunk m xs = take m xs # chunk m (drop m xs)"
  by (subst chunk.simps) simp

lemma chunk_length: "0 < m \<Longrightarrow> length (chunk m xs) = (length xs + m - 1) div m"
proof (induction m xs rule: chunk.induct)
  case (1 m xs)
  show ?case
  proof (cases "xs = []")
    case True
    then show ?thesis using "1.prems" by (simp add: chunk_Nil)
  next
    case False
    have st: "chunk m xs = take m xs # chunk m (drop m xs)"
      using chunk_step [OF "1.prems" False] .
    have ih: "length (chunk m (drop m xs)) = (length (drop m xs) + m - 1) div m"
      using "1.IH" "1.prems" False by simp
    have pos: "0 < length xs" using False by simp
    have len: "length (chunk m xs) = Suc (length (chunk m (drop m xs)))"
      unfolding st by simp
    show ?thesis
    proof (cases "m \<le> length xs")
      case True
      have e1: "length (drop m xs) + m - 1 = length xs - 1" using True by simp
      have e2: "length xs + m - 1 = length xs - 1 + m" using pos by arith
      have "(length xs - 1 + m) div m = Suc ((length xs - 1) div m)"
        using "1.prems" by simp
      then show ?thesis unfolding len ih e1 e2 by (rule sym)
    next
      case False
      then have d: "length (drop m xs) + m - 1 = m - 1" by simp
      have "m * 1 \<le> length xs + m - 1" "length xs + m - 1 < m * Suc 1"
        using pos False by (simp_all, arith)
      then have one: "(length xs + m - 1) div m = 1"
        by (rule div_nat_eqI)
      have zero: "(m - 1) div m = 0" using "1.prems" by simp
      show ?thesis unfolding len ih d one zero by simp
    qed
  qed
qed

lemma chunk_nth:
  "0 < m \<Longrightarrow> j < length xs \<Longrightarrow>
     j div m < length (chunk m xs) \<and> j mod m < length (chunk m xs ! (j div m))
     \<and> chunk m xs ! (j div m) ! (j mod m) = xs ! j"
proof (induction m xs arbitrary: j rule: chunk.induct)
  case (1 m xs)
  have ne: "xs \<noteq> []" using "1.prems" by auto
  have st: "chunk m xs = take m xs # chunk m (drop m xs)"
    using chunk_step [OF "1.prems"(1) ne] .
  show ?case
  proof (cases "j < m")
    case True
    then show ?thesis using "1.prems" st by simp
  next
    case False
    then have jm: "m \<le> j" by simp
    have lt: "j - m < length (drop m xs)" using "1.prems" jm by simp
    have ih: "(j - m) div m < length (chunk m (drop m xs))
       \<and> (j - m) mod m < length (chunk m (drop m xs) ! ((j - m) div m))
       \<and> chunk m (drop m xs) ! ((j - m) div m) ! ((j - m) mod m) = drop m xs ! (j - m)"
      using "1.IH" [of "j - m"] "1.prems"(1) ne lt by simp
    have dv: "j div m = Suc ((j - m) div m)" using jm "1.prems"(1)
      by (simp add: le_div_geq)
    have md: "j mod m = (j - m) mod m" using jm by (simp add: le_mod_geq)
    have nth: "drop m xs ! (j - m) = xs ! j" using jm "1.prems" by simp
    show ?thesis using ih nth unfolding st dv md by simp
  qed
qed

lemma chunk_page_length:
  "0 < m \<Longrightarrow> p < length (chunk m xs) \<Longrightarrow> length (chunk m xs ! p) = min m (length xs - p * m)"
proof (induction m xs arbitrary: p rule: chunk.induct)
  case (1 m xs)
  have ne: "xs \<noteq> []" using "1.prems" by (auto simp: chunk_Nil)
  have st: "chunk m xs = take m xs # chunk m (drop m xs)"
    using chunk_step [OF "1.prems"(1) ne] .
  show ?case
  proof (cases p)
    case 0
    then show ?thesis unfolding st by (simp add: min.commute)
  next
    case (Suc q)
    then have "q < length (chunk m (drop m xs))" using "1.prems"(2) unfolding st by simp
    then have "length (chunk m (drop m xs) ! q) = min m (length (drop m xs) - q * m)"
      using "1.IH" [of q] "1.prems"(1) ne by simp
    then show ?thesis unfolding st Suc by (simp add: diff_diff_left add.commute)
  qed
qed

lemma slotCalls_length: "length (slotCalls options m c es) = length es"
  by (induction es arbitrary: c) simp_all

lemma slotCalls_nth:
  "j < length es \<Longrightarrow> slotCalls options m c es ! j = drawCall options (es ! j) ((c + j) mod m)"
proof (induction es arbitrary: c j)
  case Nil
  then show ?case by simp
next
  case (Cons e es)
  then show ?case by (cases j) simp_all
qed

lemma slotCalls_period: "slotCalls options m (c + m) es = slotCalls options m c es"
proof (induction es arbitrary: c)
  case Nil
  show ?case by simp
next
  case (Cons e es)
  have "slotCalls options m (Suc c + m) es = slotCalls options m (Suc c) es"
    by (rule Cons.IH)
  then show ?case by simp
qed

lemma slotCalls_wrap: "slotCalls options m m es = slotCalls options m 0 es"
  using slotCalls_period [of options m 0 es] by simp

lemma loopBody_seal:
  assumes "embedImage env options img = Some e"
    and "imagesPerPage options \<le> int (imagesOnCurrentPage st + 1)" and "i < n - 1"
  shows "sealedPages (loopBody env options onProgress n i img st)
           = sealedPages st @ [currentPage st @ [drawCall options e (imagesOnCurrentPage st)]]"
    and "currentPage (loopBody env options onProgress n i img st) = []"
    and "imagesOnCurrentPage (loopBody env options onProgress n i img st) = 0"
  using assms by (simp_all add: loopBody_def Let_def)

lemma loopBody_stay:
  assumes "embedImage env options img = Some e"
    and "\<not> (imagesPerPage options \<le> int (imagesOnCurrentPage st + 1) \<and> i < n - 1)"
  shows "sealedPages (loopBody env options onProgress n i img st) = sealedPages st"
    and "currentPage (loopBody env options onProgress n i img st)
           = currentPage st @ [drawCall options e (imagesOnCurrentPage st)]"
    and "imagesOnCurrentPage (loopBody env options onProgress n i img st)
           = imagesOnCurrentPage st + 1"
  using assms by (auto simp: loopBody_def Let_def)

lemma imageLoop_pages:
  assumes "0 < m" "imagesPerPage options = int m"
    and "imagesOnCurrentPage st < m"
    and "i + length imgs = n"
    and "map (embedImage env options) imgs = map Some es"
  shows "documentPages (imageLoop env options onProgress n i imgs st) =
     sealedPages st
       @ (currentPage st
            @ take (m - imagesOnCurrentPage st) (slotCalls options m (imagesOnCurrentPage st) es))
         # chunk m (drop (m - imagesOnCurrentPage st)
                      (slotCalls options m (imagesOnCurrentPage st) es))"
  using assms(3,4,5)
proof (induction imgs arbitrary: i st es)
  case Nil
  then show ?case by (simp add: documentPages_def chunk_Nil)
next
  case (Cons img rest)
  let ?c = "imagesOnCurrentPage st"
  let ?st' = "loopBody env options onProgress n i img st"
  obtain e es' where es: "es = e # es'" and e: "embedImage env options img = Some e"
      and rest: "map (embedImage env options) rest = map Some es'"
    using Cons.prems(3) by (cases es) auto
  have len: "length es' = length rest" using rest by (metis length_map)
  have cm: "?c mod m = ?c" using Cons.prems(1) by simp
  let ?dc = "drawCall options e ?c"
  have idx: "Suc i + length rest = n" using Cons.prems(2) by simp
  show ?case
  proof (cases "Suc ?c < m")
    case True
    then have ns: "\<not> (imagesPerPage options \<le> int (?c + 1) \<and> i < n - 1)"
      using assms(2) by simp
    note lb = loopBody_stay [OF e ns, of onProgress]
    have c': "imagesOnCurrentPage ?st' < m" using lb(3) True by simp
    have tk: "take (m - ?c) (?dc # slotCalls options m (Suc ?c) es')
                = ?dc # take (m - Suc ?c) (slotCalls options m (Suc ?c) es')"
      using True by (simp add: take_Cons')
    have dr: "drop (m - ?c) (?dc # slotCalls options m (Suc ?c) es')
                = drop (m - Suc ?c) (slotCalls options m (Suc ?c) es')"
      using True by (simp add: drop_Cons')
    have "documentPages (imageLoop env options onProgress n (Suc i) rest ?st') =
       sealedPages st
         @ ((currentPage st @ [?dc]) @ take (m - Suc ?c) (slotCalls options m (Suc ?c) es'))
           # chunk m (drop (m - Suc ?c) (slotCalls options m (Suc ?c) es'))"
      using Cons.IH [OF c' idx rest] lb by simp
    then show ?thesis unfolding es by (simp add: cm tk dr)
  next
    case False
    then have full: "Suc ?c = m" using Cons.prems(1) by simp
    have one: "m - ?c = 1" using full by simp
    show ?thesis
    proof (cases "rest = []")
      case True
      then have es': "es' = []" using len by simp
      have "\<not> i < n - 1" using idx True by simp
      then have ns: "\<not> (imagesPerPage options \<le> int (?c + 1) \<and> i < n - 1)" by simp
      note lb = loopBody_stay [OF e ns, of onProgress]
      show ?thesis unfolding es es' True
        by (simp add: documentPages_def lb cm one chunk_Nil)
    next
      case False
      then have ne: "es' \<noteq> []" using len by auto
      have "i < n - 1" using idx False by (cases rest) auto
      moreover have "imagesPerPage options \<le> int (?c + 1)" using assms(2) full by simp
      ultimately have s: "imagesPerPage options \<le> int (?c + 1)" "i < n - 1" by simp_all
      note lb = loopBody_seal [OF e s, of onProgress]
      have c': "imagesOnCurrentPage ?st' < m" using lb(3) assms(1) by simp
      let ?S = "slotCalls options m 0 es'"
      have Sne: "?S \<noteq> []" using ne by (cases es') simp_all
      have ih: "documentPages (imageLoop env options onProgress n (Suc i) rest ?st') =
         (sealedPages st @ [currentPage st @ [?dc]]) @ take m ?S # chunk m (drop m ?S)"
        using Cons.IH [OF c' idx rest] lb by simp
      have wrap: "slotCalls options m (Suc ?c) es' = ?S"
        unfolding full by (rule slotCalls_wrap)
      have ch: "chunk m ?S = take m ?S # chunk m (drop m ?S)"
        by (rule chunk_step [OF assms(1) Sne])
      show ?thesis unfolding es
        by (simp add: ih cm one wrap ch)
    qed
  qed
qed

lemma generatePDF_pages:
  assumes "0 < m" "imagesPerPage options = int m"
    and "map (embedImage env options) images = map Some es"
  shows "documentPages (generatePDF env images options onProgress) =
     (if images = [] then [[]] else chunk m (slotCalls options m 0 es))"
proof -
  let ?st0 = "\<lparr> sealedPages = [], currentPage = [], imagesOnCurrentPage = 0,
                 progressLog = [] \<rparr> :: 'a Assembly"
  let ?S = "slotCalls options m 0 es"
  have c: "imagesOnCurrentPage ?st0 < m" using assms(1) by simp
  have i: "0 + length images = length images" by simp
  have p: "documentPages (generatePDF env images options onProgress) =
      take m ?S # chunk m (drop m ?S)"
    unfolding documentPages_generatePDF
    using imageLoop_pages [OF assms(1,2) c i assms(3), of onProgress] by simp
  show ?thesis
  proof (cases "images = []")
    case True
    then have "es = []" using assms(3) by simp
    then show ?thesis using True p by (simp add: chunk_Nil)
  next
    case False
    then have "es \<noteq> []" using assms(3) by auto
    then have "?S \<noteq> []" by (cases es) simp_all
    then have "chunk m ?S = take m ?S # chunk m (drop m ?S)"
      by (rule chunk_step [OF assms(1)])
    then show ?thesis using False p by simp
  qed
qed

section \<open>The example inputs, evaluated\<close>

lemma embed_validA: "embedImage exampleEnv (exampleOptions ipp) validA
   = Some \<lparr> embeddedAs = PNG, embeddedBytes = [400, 300], image_width = 400, image_height = 300 \<rparr>"
  by (simp add: embedImage_def exampleEnv_def validA_def embedded_def)

lemma embed_corruptB: "embedImage exampleEnv (exampleOptions ipp) corruptB = None"
  by (simp add: embedImage_def exampleEnv_def corruptB_def embedded_def)

lemma embed_validC: "embedImage exampleEnv (exampleOptions ipp) validC
   = Some \<lparr> embeddedAs = JPG, embeddedBytes = [400, 300], image_width = 400, image_height = 300 \<rparr>"
  by (simp add: embedImage_def exampleEnv_def validC_def embedded_def)

lemma embed_animD: "embedImage exampleEnv (exampleOptions ipp) animD
   = Some \<lparr> embeddedAs = JPG, embeddedBytes = [400, 300, 90], image_width = 400, image_height = 300 \<rparr>"
  by (simp add: embedImage_def exampleEnv_def animD_def embedded_def exampleOptions_def)

lemma drawCall_single:
  "drawCall (exampleOptions 1) \<lparr> embeddedAs = f, embeddedBytes = b, image_width = 400, image_height = 300 \<rparr> k
   = (\<lparr> embeddedAs = f, embeddedBytes = b, image_width = 400, image_height = 300 \<rparr>,
      Some \<lparr> draw_x = 20, draw_y = 212.875, draw_width = 555, draw_height = 416.25 \<rparr>)"
  by (simp add: drawCall_def exampleOptions_def pageGeometry_def calc_one drawOptions_def)

section \<open>Failing images\<close>

lemma loopBody_failure:
  assumes "embedImage env options img = None"
  shows "loopBody env options onProgress n i img st =
     (if onProgress then st\<lparr> progressLog := progressLog st @ [real i / real n * 100] \<rparr> else st)"
  using assms by (simp add: loopBody_def)

lemma fst_drawCall: "fst (drawCall options e slot) = e"
  by (simp add: drawCall_def Let_def)

lemma loopBody_images:
  "map fst (concat (documentPages (loopBody env options onProgress n i img st))) =
     map fst (concat (documentPages st))
       @ (case embedImage env options img of None \<Rightarrow> [] | Some e \<Rightarrow> [e])"
  by (auto simp: loopBody_def documentPages_def Let_def fst_drawCall split: option.split)

lemma imageLoop_images:
  "map fst (concat (documentPages (imageLoop env options onProgress n i imgs st))) =
     map fst (concat (documentPages st)) @ List.map_filter (embedImage env options) imgs"
proof (induction imgs arbitrary: i st)
  case Nil
  show ?case by (simp add: List.map_filter_simps)
next
  case (Cons img rest)
  show ?case
    by (simp add: Cons.IH loopBody_images List.map_filter_simps split: option.split)
qed

lemma generatePDF_images:
  "map fst (concat (documentPages (generatePDF env images options onProgress))) =
     List.map_filter (embedImage env options) images"
  unfolding documentPages_generatePDF imageLoop_images
  by (simp add: documentPages_def)

lemma skip_scenario:
  assumes "imagesPerPage options = 1"
    and "embedImage env options a = Some ea"
    and "embedImage env options b = None"
    and "embedImage env options c = Some ec"
  shows "documentPages (generatePDF env [a, b, c] options onProgress) =
     [[drawCall options ea 0], [drawCall options ec 0]]"
  using assms unfolding documentPages_generatePDF
  by (simp add: loopBody_def documentPages_def Let_def)

lemma trailing_failure:
  assumes "imagesPerPage options = 1"
    and "embedImage env options a = Some ea"
    and "embedImage env options b = None"
  shows "documentPages (generatePDF env [a, b] options onProgress) =
     [[drawCall options ea 0], []]"
  using assms unfolding documentPages_generatePDF
  by (simp add: loopBody_def documentPages_def Let_def)

text \<open>
  C2. An image that fails to load or embed is skipped: its iteration leaves the pages
  added so far, the current page and the slot counter as they were, so it is not drawn,
  takes no slot and starts no page. The run goes on: the images drawn by \<open>generatePDF\<close>,
  read page by page, are exactly the images of the list that embed, in the order of the
  list. For a list of three images of which only the second fails, with one image per
  page, the document has two pages, the first image alone on page 1 and the third alone
  on page 2.
\<close>

theorem failing_image_is_skipped:
  "(embedImage env options img = None \<longrightarrow>
       sealedPages (loopBody env options onProgress n i img st) = sealedPages st
     \<and> currentPage (loopBody env options onProgress n i img st) = currentPage st
     \<and> imagesOnCurrentPage (loopBody env options onProgress n i img st) = imagesOnCurrentPage st)
   \<and> map fst (concat (documentPages (generatePDF env images options onProgress)))
       = List.map_filter (embedImage env options) images
   \<and> (imagesPerPage options = 1 \<and> embedImage env options a = Some ea
        \<and> embedImage env options b = None \<and> embedImage env options c = Some ec \<longrightarrow>
      documentPages (generatePDF env [a, b, c] options onProgress)
        = [[drawCall options ea 0], [drawCall options ec 0]])"
proof (intro conjI impI)
  assume f: "embedImage env options img = None"
  show "sealedPages (loopBody env options onProgress n i img st) = sealedPages st"
    by (simp add: loopBody_failure [OF f])
  show "currentPage (loopBody env options onProgress n i img st) = currentPage st"
    by (simp add: loopBody_failure [OF f])
  show "imagesOnCurrentPage (loopBody env options onProgress n i img st) = imagesOnCurrentPage st"
    by (simp add: loopBody_failure [OF f])
next
  show "map fst (concat (documentPages (generatePDF env images options onProgress)))
       = List.map_filter (embedImage env options) images"
    by (rule generatePDF_images)
next
  assume "imagesPerPage options = 1 \<and> embedImage env options a = Some ea
        \<and> embedImage env options b = None \<and> embedImage env options c = Some ec"
  then show "documentPages (generatePDF env [a, b, c] options onProgress)
        = [[drawCall options ea 0], [drawCall options ec 0]]"
    using skip_scenario by blast
qed

theorem failing_image_is_skipped_witness:
  "embedImage exampleEnv (exampleOptions 1) corruptB = None
   \<and> imagesPerPage (exampleOptions 1) = 1
   \<and> embedImage exampleEnv (exampleOptions 1) validA
       = Some \<lparr> embeddedAs = PNG, embeddedBytes = [400, 300], image_width = 400, image_height = 300 \<rparr>
   \<and> embedImage exampleEnv (exampleOptions 1) validC
       = Some \<lparr> embeddedAs = JPG, embeddedBytes = [400, 300], image_width = 400, image_height = 300 \<rparr>
   \<and> sealedPages (loopBody exampleEnv (exampleOptions 1) False 3 1 corruptB
        \<lparr> sealedPages = [[]], currentPage = [], imagesOnCurrentPage = 0, progressLog = [] \<rparr>) = [[]]
   \<and> map fst (concat (documentPages (generatePDF exampleEnv [validA, corruptB, validC] (exampleOptions 1) False)))
       = [\<lparr> embeddedAs = PNG, embeddedBytes = [400, 300], image_width = 400, image_height = 300 \<rparr>,
          \<lparr> embeddedAs = JPG, embeddedBytes = [400, 300], image_width = 400, image_height = 300 \<rparr>]
   \<and> documentPages (generatePDF exampleEnv [validA, corruptB, validC] (exampleOptions 1) False)
       = [[(\<lparr> embeddedAs = PNG, embeddedBytes = [400, 300], image_width = 400, image_height = 300 \<rparr>,
            Some \<lparr> draw_x = 20, draw_y = 212.875, draw_width = 555, draw_height = 416.25 \<rparr>)],
          [(\<lparr> embeddedAs = JPG, embeddedBytes = [400, 300], image_width = 400, image_height = 300 \<rparr>,
            Some \<lparr> draw_x = 20, draw_y = 212.875, draw_width = 555, draw_height = 416.25 \<rparr>)]]"
proof -
  let ?o = "exampleOptions 1"
  let ?st = "\<lparr> sealedPages = [[]], currentPage = [], imagesOnCurrentPage = 0, progressLog = [] \<rparr>
               :: nat list Assembly"
  note t = failing_image_is_skipped [of exampleEnv ?o corruptB False 3 1 ?st
               "[validA, corruptB, validC]" validA _ corruptB validC]
  have o: "imagesPerPage ?o = 1" by (simp add: exampleOptions_def)
  show ?thesis
    using t o
    by (simp add: embed_validA embed_corruptB embed_validC drawCall_single List.map_filter_simps)
qed

text \<open>
  C1. The number of pages is not always the number of placed images divided by
  \<open>imagesPerPage\<close>, rounded up, with a minimum of one. For the list of a valid image
  followed by a corrupt one, with one image per page, the first image fills page 1 and is
  not the last of the list, so page 2 is added; the second image then fails, and the
  document keeps two pages, the second one empty, for one placed image.
\<close>

theorem trailing_failure_leaves_empty_page:
  "documentPages (generatePDF exampleEnv [validA, corruptB] (exampleOptions 1) onProgress)
     = [[(\<lparr> embeddedAs = PNG, embeddedBytes = [400, 300], image_width = 400, image_height = 300 \<rparr>,
          Some \<lparr> draw_x = 20, draw_y = 212.875, draw_width = 555, draw_height = 416.25 \<rparr>)],
        []]
   \<and> length (documentPages (generatePDF exampleEnv [validA, corruptB] (exampleOptions 1) onProgress)) = 2
   \<and> length (concat (documentPages (generatePDF exampleEnv [validA, corruptB] (exampleOptions 1) onProgress))) = 1
   \<and> max 1 (nat \<lceil>real 1 / real_of_int (imagesPerPage (exampleOptions 1))\<rceil>) = 1
   \<and> length (documentPages (generatePDF exampleEnv [validA, corruptB] (exampleOptions 1) onProgress))
       \<noteq> max 1 (nat \<lceil>real (length (concat (documentPages
                  (generatePDF exampleEnv [validA, corruptB] (exampleOptions 1) onProgress))))
               / real_of_int (imagesPerPage (exampleOptions 1))\<rceil>)"
proof -
  have o: "imagesPerPage (exampleOptions 1) = 1" by (simp add: exampleOptions_def)
  have p: "documentPages (generatePDF exampleEnv [validA, corruptB] (exampleOptions 1) onProgress)
     = [[drawCall (exampleOptions 1)
           \<lparr> embeddedAs = PNG, embeddedBytes = [400, 300], image_width = 400, image_height = 300 \<rparr> 0], []]"
    by (rule trailing_failure [OF o embed_validA embed_corruptB])
  show ?thesis unfolding p by (simp add: drawCall_single o)
qed

section \<open>Placement when every image embeds\<close>

lemma all_embed_list:
  assumes "\<forall>img \<in> set images. embedImage env options img \<noteq> None"
  shows "map (embedImage env options) images
           = map Some (map (\<lambda>img. the (embedImage env options img)) images)"
  using assms by (induction images) auto

lemma drawCall_same_size:
  assumes "image_width e' = image_width e" "image_height e' = image_height e"
  shows "snd (drawCall options e' slot) = snd (drawCall options e slot)"
  using assms by (simp add: drawCall_def Let_def)

lemma slotCalls_five:
  "slotCalls options 4 0 [e0, e1, e2, e3, e4] =
     [drawCall options e0 0, drawCall options e1 1, drawCall options e2 2,
      drawCall options e3 3, drawCall options e4 0]"
proof -
  have "(0::nat) mod 4 = 0" "Suc 0 mod 4 = (1::nat)" "Suc (Suc 0) mod 4 = (2::nat)"
    "Suc (Suc (Suc 0)) mod 4 = (3::nat)" "Suc (Suc (Suc (Suc 0))) mod 4 = (0::nat)"
    by simp_all
  then show ?thesis by (simp only: slotCalls.simps)
qed

lemma chunk_four_of_five: "chunk 4 [a, b, c, d, e] = [[a, b, c, d], [e]]"
  by (simp add: chunk_step chunk_Nil)

lemma five_on_four:
  assumes "imagesPerPage options = 4"
    and "map (embedImage env options) images = map Some [e0, e1, e2, e3, e4]"
  shows "documentPages (generatePDF env images options onProgress) =
     [[drawCall options e0 0, drawCall options e1 1, drawCall options e2 2, drawCall options e3 3],
      [drawCall options e4 0]]"
proof -
  have m: "(0::nat) < 4" "imagesPerPage options = int 4" using assms(1) by simp_all
  have ne: "images \<noteq> []" using assms(2) by auto
  have "documentPages (generatePDF env images options onProgress)
      = chunk 4 (slotCalls options 4 0 [e0, e1, e2, e3, e4])"
    using generatePDF_pages [OF m assms(2), of onProgress] ne by simp
  also have "\<dots> = chunk 4 [drawCall options e0 0, drawCall options e1 1,
                     drawCall options e2 2, drawCall options e3 3, drawCall options e4 0]"
    by (simp only: slotCalls_five)
  also have "\<dots> = [[drawCall options e0 0, drawCall options e1 1, drawCall options e2 2,
                     drawCall options e3 3], [drawCall options e4 0]]"
    by (rule chunk_four_of_five)
  finally show ?thesis .
qed

lemma drawCall_cell:
  assumes "imagesPerPage options = int m"
    and "image_width e \<noteq> 0" "image_height e \<noteq> 0"
  shows "(let g = pageGeometry options;
              cw = cellWidth (int m) (availableWidth g);
              ch = cellHeight (int m) (availableHeight g);
              col = (if m = 2 \<or> m = 4 then k mod 2 else 0);
              row = (if m = 4 then (k div 2) mod 2 else 0);
              s = min (cw / image_width e) (ch / image_height e)
          in snd (drawCall options e k) =
               Some \<lparr> draw_x = margin options + real col * (availableWidth g / 2)
                                 + (cw - image_width e * s) / 2,
                      draw_y = pageHeight g
                                 - (margin options + real row * (availableHeight g / 2)
                                      + (ch - image_height e * s) / 2)
                                 - image_height e * s,
                      draw_width = image_width e * s,
                      draw_height = image_height e * s \<rparr>)"
proof -
  consider "m = 1" | "m = 2" | "m = 4" | "m \<noteq> 1 \<and> m \<noteq> 2 \<and> m \<noteq> 4" by blast
  then show ?thesis
  proof cases
    case 1
    then show ?thesis using assms
      by (simp add: drawCall_def calculateImageDimensions_def js_div_def Let_def
            cellWidth_def cellHeight_def drawOptions_def)
  next
    case 2
    then show ?thesis using assms
      by (simp add: drawCall_def calculateImageDimensions_def js_div_def Let_def
            cellWidth_def cellHeight_def drawOptions_def)
  next
    case 3
    then show ?thesis using assms
      by (simp add: drawCall_def calculateImageDimensions_def js_div_def Let_def
            cellWidth_def cellHeight_def drawOptions_def)
  next
    case 4
    then have "int m \<noteq> 1" "int m \<noteq> 2" "int m \<noteq> 4" by simp_all
    then show ?thesis using assms 4
      by (simp add: drawCall_def calculateImageDimensions_def js_div_def Let_def
            cellWidth_def cellHeight_def drawOptions_def)
  qed
qed


lemma slot_index_from_cell:
  fixes k k' :: nat
  assumes "k < 4" "k' < 4" "k mod 2 = k' mod 2" "(k div 2) mod 2 = (k' div 2) mod 2"
  shows "k = k'"
proof -
  have "k = 0 \<or> k = 1 \<or> k = 2 \<or> k = 3" "k' = 0 \<or> k' = 1 \<or> k' = 2 \<or> k' = 3"
    using assms(1,2) by arith+
  then show ?thesis using assms(3,4) by auto
qed

lemma drawCall_x:
  assumes "imagesPerPage options = int m"
    and "image_width e \<noteq> 0" "image_height e \<noteq> 0"
  shows "map_option draw_x (snd (drawCall options e k)) =
     Some (margin options
             + real (if m = 2 \<or> m = 4 then k mod 2 else 0)
                 * (availableWidth (pageGeometry options) / 2)
             + (cellWidth (int m) (availableWidth (pageGeometry options))
                  - image_width e
                      * min (cellWidth (int m) (availableWidth (pageGeometry options)) / image_width e)
                            (cellHeight (int m) (availableHeight (pageGeometry options)) / image_height e))
               / 2)"
  using drawCall_cell [OF assms, of k] unfolding Let_def by simp


lemma drawCall_y:
  assumes "imagesPerPage options = int m"
    and "image_width e \<noteq> 0" "image_height e \<noteq> 0"
  shows "map_option draw_y (snd (drawCall options e k)) =
     Some (pageHeight (pageGeometry options)
             - (margin options
                  + real (if m = 4 then (k div 2) mod 2 else 0)
                      * (availableHeight (pageGeometry options) / 2)
                  + (cellHeight (int m) (availableHeight (pageGeometry options))
                       - image_height e
                           * min (cellWidth (int m) (availableWidth (pageGeometry options)) / image_width e)
                                 (cellHeight (int m) (availableHeight (pageGeometry options)) / image_height e))
                    / 2)
             - image_height e
                 * min (cellWidth (int m) (availableWidth (pageGeometry options)) / image_width e)
                       (cellHeight (int m) (availableHeight (pageGeometry options)) / image_height e))"
  using drawCall_cell [OF assms, of k] unfolding Let_def by simp

lemma drawCall_distinct:
  assumes "imagesPerPage options = int m" and "m = 2 \<or> m = 4"
    and "image_width e \<noteq> 0" "image_height e \<noteq> 0"
    and "availableWidth (pageGeometry options) \<noteq> 0"
    and "availableHeight (pageGeometry options) \<noteq> 0"
    and "k < m" "k' < m" "k \<noteq> k'"
  shows "snd (drawCall options e k) \<noteq> snd (drawCall options e k')"
proof
  assume eq: "snd (drawCall options e k) = snd (drawCall options e k')"
  let ?aw = "availableWidth (pageGeometry options)"
  let ?ah = "availableHeight (pageGeometry options)"
  have "map_option draw_x (snd (drawCall options e k))
          = map_option draw_x (snd (drawCall options e k'))"
    by (simp only: eq)
  then have x: "real (if m = 2 \<or> m = 4 then k mod 2 else 0) * (?aw / 2)
              = real (if m = 2 \<or> m = 4 then k' mod 2 else 0) * (?aw / 2)"
    unfolding drawCall_x [OF assms(1,3,4)] by simp
  have "map_option draw_y (snd (drawCall options e k))
          = map_option draw_y (snd (drawCall options e k'))"
    by (simp only: eq)
  then have y: "real (if m = 4 then (k div 2) mod 2 else 0) * (?ah / 2)
              = real (if m = 4 then (k' div 2) mod 2 else 0) * (?ah / 2)"
    unfolding drawCall_y [OF assms(1,3,4)] by simp
  have col: "k mod 2 = k' mod 2" using x assms(2,5) by auto
  from assms(2) show False
  proof
    assume "m = 2"
    then have "k mod 2 = k" "k' mod 2 = k'" using assms(7,8) by simp_all
    then show False using col assms(9) by simp
  next
    assume m: "m = 4"
    then have "(k div 2) mod 2 = (k' div 2) mod 2" using y assms(6) by auto
    then have "k = k'" using col assms(7,8) m slot_index_from_cell by simp
    then show False using assms(9) by simp
  qed
qed

text \<open>
  C5. When every image of the list embeds and \<open>imagesPerPage\<close> is a positive number
  \<open>m\<close>, the image at index \<open>j\<close> of the list is drawn as call number \<open>j mod m\<close> of
  page number \<open>j div m\<close> (both counted from 0), with the rectangle the calculator gives
  for slot \<open>j mod m\<close>. The document has one page for the empty list and otherwise the
  number of images divided by \<open>m\<close>, rounded up, and page \<open>p\<close> holds exactly
  \<open>min m (n - p * m)\<close> images. An iteration whose image embeds adds a page exactly
  when the slot counter, after its increment, has reached \<open>imagesPerPage\<close> and the
  image is not the last of the list.

  The rectangle of slot \<open>k\<close> is the image, scaled by the smaller of the two ratios of
  cell to image, centred in the cell of column \<open>k mod 2\<close> (for two and four images per
  page; column 0 otherwise) and row \<open>(k div 2) mod 2\<close> (for four images per page; row
  0 otherwise): the cell starts \<open>column\<close> half available widths to the right of the
  left margin and \<open>row\<close> half available heights below the top margin. For two and
  four images per page, an available area that is not empty and one image size, the
  slots of a page get different rectangles.

  In particular five images with four per page give two pages: slots 0 to 3 on page 1,
  and the fifth image alone in slot 0 of page 2, which is the cell of column 0 and row 0;
  if it has the size of the first image, it gets the rectangle of the first image.
\<close>

theorem placement_by_slot_and_page:
  assumes "0 < m" and "imagesPerPage options = int m"
    and "\<forall>img \<in> set images. embedImage env options img \<noteq> None"
  shows "length (documentPages (generatePDF env images options onProgress))
           = (if images = [] then 1 else (length images + m - 1) div m)
     \<and> (\<forall>j < length images. \<exists>e.
           embedImage env options (images ! j) = Some e
         \<and> j div m < length (documentPages (generatePDF env images options onProgress))
         \<and> j mod m < length (documentPages (generatePDF env images options onProgress) ! (j div m))
         \<and> documentPages (generatePDF env images options onProgress) ! (j div m) ! (j mod m)
             = drawCall options e (j mod m))
     \<and> (images \<noteq> [] \<longrightarrow>
          (\<forall>p < length (documentPages (generatePDF env images options onProgress)).
             length (documentPages (generatePDF env images options onProgress) ! p)
               = min m (length images - p * m)))
     \<and> (\<forall>img e st i n. embedImage env options img = Some e \<longrightarrow>
          length (documentPages (loopBody env options onProgress n i img st))
            = length (documentPages st)
               + (if imagesPerPage options \<le> int (imagesOnCurrentPage st + 1) \<and> i < n - 1
                  then 1 else 0))
     \<and> (\<forall>e k. image_width e \<noteq> 0 \<and> image_height e \<noteq> 0 \<longrightarrow>
            (let g = pageGeometry options;
                 cw = cellWidth (int m) (availableWidth g);
                 ch = cellHeight (int m) (availableHeight g);
                 col = (if m = 2 \<or> m = 4 then k mod 2 else 0);
                 row = (if m = 4 then (k div 2) mod 2 else 0);
                 s = min (cw / image_width e) (ch / image_height e)
             in snd (drawCall options e k) =
                  Some \<lparr> draw_x = margin options + real col * (availableWidth g / 2)
                                    + (cw - image_width e * s) / 2,
                         draw_y = pageHeight g
                                    - (margin options + real row * (availableHeight g / 2)
                                         + (ch - image_height e * s) / 2)
                                    - image_height e * s,
                         draw_width = image_width e * s,
                         draw_height = image_height e * s \<rparr>))
     \<and> (\<forall>e k k'. (m = 2 \<or> m = 4) \<and> image_width e \<noteq> 0 \<and> image_height e \<noteq> 0
            \<and> availableWidth (pageGeometry options) \<noteq> 0
            \<and> availableHeight (pageGeometry options) \<noteq> 0
            \<and> k < m \<and> k' < m \<and> k \<noteq> k' \<longrightarrow>
          snd (drawCall options e k) \<noteq> snd (drawCall options e k'))
     \<and> (\<forall>e0 e1 e2 e3 e4.
          m = 4 \<and> map (embedImage env options) images = map Some [e0, e1, e2, e3, e4] \<longrightarrow>
            documentPages (generatePDF env images options onProgress)
              = [[drawCall options e0 0, drawCall options e1 1, drawCall options e2 2,
                  drawCall options e3 3],
                 [drawCall options e4 0]]
          \<and> (image_width e4 = image_width e0 \<and> image_height e4 = image_height e0 \<longrightarrow>
               snd (drawCall options e4 0) = snd (drawCall options e0 0))
          \<and> (image_width e4 \<noteq> 0 \<and> image_height e4 \<noteq> 0 \<longrightarrow>
               (let g = pageGeometry options;
                   cw = cellWidth 4 (availableWidth g);
                   ch = cellHeight 4 (availableHeight g);
                   s = min (cw / image_width e4) (ch / image_height e4)
               in snd (drawCall options e4 0) =
                    Some \<lparr> draw_x = margin options + (cw - image_width e4 * s) / 2,
                           draw_y = pageHeight g
                                      - (margin options + (ch - image_height e4 * s) / 2)
                                      - image_height e4 * s,
                           draw_width = image_width e4 * s,
                           draw_height = image_height e4 * s \<rparr>)))"
proof -
  let ?es = "map (\<lambda>img. the (embedImage env options img)) images"
  let ?S = "slotCalls options m 0 ?es"
  let ?P = "documentPages (generatePDF env images options onProgress)"
  have es: "map (embedImage env options) images = map Some ?es"
    by (rule all_embed_list [OF assms(3)])
  have P: "?P = (if images = [] then [[]] else chunk m ?S)"
    by (rule generatePDF_pages [OF assms(1,2) es])
  have lS: "length ?S = length images" by (simp add: slotCalls_length)
  have c1: "length ?P = (if images = [] then 1 else (length images + m - 1) div m)"
    unfolding P using chunk_length [OF assms(1), of ?S] lS by simp
  have c2: "\<forall>j < length images. \<exists>e.
           embedImage env options (images ! j) = Some e
         \<and> j div m < length ?P \<and> j mod m < length (?P ! (j div m))
         \<and> ?P ! (j div m) ! (j mod m) = drawCall options e (j mod m)"
  proof (intro allI impI)
    fix j assume j: "j < length images"
    then have ne: "images \<noteq> []" by auto
    have "embedImage env options (images ! j) \<noteq> None" using assms(3) j by simp
    then obtain e where e: "embedImage env options (images ! j) = Some e" by auto
    have ej: "?es ! j = e" using j e by simp
    have jS: "j < length ?S" using j lS by simp
    have "?S ! j = drawCall options (?es ! j) ((0 + j) mod m)"
      by (rule slotCalls_nth) (use j in simp)
    then have Sj: "?S ! j = drawCall options e (j mod m)" using ej by simp
    have "j div m < length (chunk m ?S) \<and> j mod m < length (chunk m ?S ! (j div m))
       \<and> chunk m ?S ! (j div m) ! (j mod m) = ?S ! j"
      by (rule chunk_nth [OF assms(1) jS])
    then show "\<exists>e. embedImage env options (images ! j) = Some e
         \<and> j div m < length ?P \<and> j mod m < length (?P ! (j div m))
         \<and> ?P ! (j div m) ! (j mod m) = drawCall options e (j mod m)"
      using e Sj ne unfolding P by simp
  qed
  have c3: "images \<noteq> [] \<longrightarrow>
          (\<forall>p < length ?P. length (?P ! p) = min m (length images - p * m))"
  proof (intro impI allI)
    fix p assume ne: "images \<noteq> []" and "p < length ?P"
    then have "p < length (chunk m ?S)" unfolding P by simp
    then have "length (chunk m ?S ! p) = min m (length ?S - p * m)"
      by (rule chunk_page_length [OF assms(1)])
    then show "length (?P ! p) = min m (length images - p * m)"
      using ne lS unfolding P by simp
  qed
  have c4: "\<forall>img e st i n. embedImage env options img = Some e \<longrightarrow>
          length (documentPages (loopBody env options onProgress n i img st))
            = length (documentPages st)
               + (if imagesPerPage options \<le> int (imagesOnCurrentPage st + 1) \<and> i < n - 1
                  then 1 else 0)"
    by (auto simp: documentPages_def loopBody_def Let_def)
  have origin: "(let g = pageGeometry options;
          cw = cellWidth 4 (availableWidth g);
          ch = cellHeight 4 (availableHeight g);
          s = min (cw / image_width e4) (ch / image_height e4)
      in snd (drawCall options e4 0) =
           Some \<lparr> draw_x = margin options + (cw - image_width e4 * s) / 2,
                  draw_y = pageHeight g
                             - (margin options + (ch - image_height e4 * s) / 2)
                             - image_height e4 * s,
                  draw_width = image_width e4 * s,
                  draw_height = image_height e4 * s \<rparr>)"
    if "m = 4" "image_width e4 \<noteq> 0 \<and> image_height e4 \<noteq> 0" for e4
    using drawCall_cell [OF assms(2), of e4 0] that by (simp add: Let_def)
  have c5: "\<forall>e0 e1 e2 e3 e4.
          m = 4 \<and> map (embedImage env options) images = map Some [e0, e1, e2, e3, e4] \<longrightarrow>
            ?P = [[drawCall options e0 0, drawCall options e1 1, drawCall options e2 2,
                  drawCall options e3 3],
                 [drawCall options e4 0]]
          \<and> (image_width e4 = image_width e0 \<and> image_height e4 = image_height e0 \<longrightarrow>
               snd (drawCall options e4 0) = snd (drawCall options e0 0))
          \<and> (image_width e4 \<noteq> 0 \<and> image_height e4 \<noteq> 0 \<longrightarrow>
               (let g = pageGeometry options;
                   cw = cellWidth 4 (availableWidth g);
                   ch = cellHeight 4 (availableHeight g);
                   s = min (cw / image_width e4) (ch / image_height e4)
               in snd (drawCall options e4 0) =
                    Some \<lparr> draw_x = margin options + (cw - image_width e4 * s) / 2,
                           draw_y = pageHeight g
                                      - (margin options + (ch - image_height e4 * s) / 2)
                                      - image_height e4 * s,
                           draw_width = image_width e4 * s,
                           draw_height = image_height e4 * s \<rparr>))"
  proof (intro allI impI conjI)
    fix e0 e1 e2 e3 e4
    assume h: "m = 4 \<and> map (embedImage env options) images = map Some [e0, e1, e2, e3, e4]"
    then have "imagesPerPage options = 4" using assms(2) by simp
    then show "?P = [[drawCall options e0 0, drawCall options e1 1, drawCall options e2 2,
                  drawCall options e3 3],
                 [drawCall options e4 0]]"
      using h five_on_four by blast
    show "snd (drawCall options e4 0) = snd (drawCall options e0 0)"
      if "image_width e4 = image_width e0 \<and> image_height e4 = image_height e0"
      using that drawCall_same_size by blast
    show "(let g = pageGeometry options;
                   cw = cellWidth 4 (availableWidth g);
                   ch = cellHeight 4 (availableHeight g);
                   s = min (cw / image_width e4) (ch / image_height e4)
               in snd (drawCall options e4 0) =
                    Some \<lparr> draw_x = margin options + (cw - image_width e4 * s) / 2,
                           draw_y = pageHeight g
                                      - (margin options + (ch - image_height e4 * s) / 2)
                                      - image_height e4 * s,
                           draw_width = image_width e4 * s,
                           draw_height = image_height e4 * s \<rparr>)"
      if "image_width e4 \<noteq> 0 \<and> image_height e4 \<noteq> 0"
      using origin h that by blast
  qed
  have c6: "\<forall>e k. image_width e \<noteq> 0 \<and> image_height e \<noteq> 0 \<longrightarrow>
            (let g = pageGeometry options;
                 cw = cellWidth (int m) (availableWidth g);
                 ch = cellHeight (int m) (availableHeight g);
                 col = (if m = 2 \<or> m = 4 then k mod 2 else 0);
                 row = (if m = 4 then (k div 2) mod 2 else 0);
                 s = min (cw / image_width e) (ch / image_height e)
             in snd (drawCall options e k) =
                  Some \<lparr> draw_x = margin options + real col * (availableWidth g / 2)
                                    + (cw - image_width e * s) / 2,
                         draw_y = pageHeight g
                                    - (margin options + real row * (availableHeight g / 2)
                                         + (ch - image_height e * s) / 2)
                                    - image_height e * s,
                         draw_width = image_width e * s,
                         draw_height = image_height e * s \<rparr>)"
    using drawCall_cell [OF assms(2)] by blast
  have c7: "\<forall>e k k'. (m = 2 \<or> m = 4) \<and> image_width e \<noteq> 0 \<and> image_height e \<noteq> 0
            \<and> availableWidth (pageGeometry options) \<noteq> 0
            \<and> availableHeight (pageGeometry options) \<noteq> 0
            \<and> k < m \<and> k' < m \<and> k \<noteq> k' \<longrightarrow>
          snd (drawCall options e k) \<noteq> snd (drawCall options e k')"
    using drawCall_distinct [OF assms(2)] by blast
  show ?thesis
    apply (rule conjI [OF c1])
    apply (rule conjI [OF c2])
    apply (rule conjI [OF c3])
    apply (rule conjI [OF c4])
    apply (rule conjI [OF c6])
    apply (rule conjI [OF c7])
    apply (rule c5)
    done
qed

theorem placement_by_slot_and_page_witness:
  "(0::nat) < 4 \<and> imagesPerPage (exampleOptions 4) = int 4
   \<and> embedImage exampleEnv (exampleOptions 4) validA \<noteq> None
   \<and> embedImage exampleEnv (exampleOptions 4) validC \<noteq> None
   \<and> length (documentPages
        (generatePDF exampleEnv [validA, validC, validA, validC, validA] (exampleOptions 4) False)) = 2
   \<and> documentPages
        (generatePDF exampleEnv [validA, validC, validA, validC, validA] (exampleOptions 4) False)
       = [[(\<lparr> embeddedAs = PNG, embeddedBytes = [400, 300], image_width = 400, image_height = 300 \<rparr>,
            Some \<lparr> draw_x = 20, draw_y = 526.1875, draw_width = 267.5, draw_height = 200.625 \<rparr>),
           (\<lparr> embeddedAs = JPG, embeddedBytes = [400, 300], image_width = 400, image_height = 300 \<rparr>,
            Some \<lparr> draw_x = 297.5, draw_y = 526.1875, draw_width = 267.5, draw_height = 200.625 \<rparr>),
           (\<lparr> embeddedAs = PNG, embeddedBytes = [400, 300], image_width = 400, image_height = 300 \<rparr>,
            Some \<lparr> draw_x = 20, draw_y = 125.1875, draw_width = 267.5, draw_height = 200.625 \<rparr>),
           (\<lparr> embeddedAs = JPG, embeddedBytes = [400, 300], image_width = 400, image_height = 300 \<rparr>,
            Some \<lparr> draw_x = 297.5, draw_y = 125.1875, draw_width = 267.5, draw_height = 200.625 \<rparr>)],
          [(\<lparr> embeddedAs = PNG, embeddedBytes = [400, 300], image_width = 400, image_height = 300 \<rparr>,
            Some \<lparr> draw_x = 20, draw_y = 526.1875, draw_width = 267.5, draw_height = 200.625 \<rparr>)]]
   \<and> (4::nat) < length [validA, validC, validA, validC, validA]
   \<and> (\<exists>e. embedImage exampleEnv (exampleOptions 4) ([validA, validC, validA, validC, validA] ! 4) = Some e
        \<and> documentPages
              (generatePDF exampleEnv [validA, validC, validA, validC, validA] (exampleOptions 4) False)
              ! (4 div 4) ! (4 mod 4)
            = drawCall (exampleOptions 4) e (4 mod 4))
   \<and> [validA, validC, validA, validC, validA] \<noteq> []
   \<and> (1::nat) < length (documentPages
        (generatePDF exampleEnv [validA, validC, validA, validC, validA] (exampleOptions 4) False))
   \<and> length (documentPages
        (generatePDF exampleEnv [validA, validC, validA, validC, validA] (exampleOptions 4) False) ! 1)
       = min 4 (length [validA, validC, validA, validC, validA] - 1 * 4)
   \<and> snd (drawCall (exampleOptions 4)
             \<lparr> embeddedAs = PNG, embeddedBytes = [400, 300 :: nat], image_width = 400, image_height = 300 \<rparr> 1)
       \<noteq> snd (drawCall (exampleOptions 4)
             \<lparr> embeddedAs = PNG, embeddedBytes = [400, 300 :: nat], image_width = 400, image_height = 300 \<rparr> 3)"
proof -
  let ?imgs = "[validA, validC, validA, validC, validA]"
  let ?o = "exampleOptions 4"
  let ?png = "\<lparr> embeddedAs = PNG, embeddedBytes = [400, 300], image_width = 400, image_height = 300 \<rparr>
                :: nat list PDFImage"
  let ?jpg = "\<lparr> embeddedAs = JPG, embeddedBytes = [400, 300], image_width = 400, image_height = 300 \<rparr>
                :: nat list PDFImage"
  let ?P = "documentPages (generatePDF exampleEnv ?imgs ?o False)"
  have h1: "(0::nat) < 4" by simp
  have h2: "imagesPerPage ?o = int 4" by (simp add: exampleOptions_def)
  have h3: "\<forall>img \<in> set ?imgs. embedImage exampleEnv ?o img \<noteq> None"
    by (simp add: embed_validA embed_validC)
  note t = placement_by_slot_and_page [OF h1 h2 h3, of False]
  note c1 = t [THEN conjunct1]
  note c2 = t [THEN conjunct2, THEN conjunct1]
  note c3 = t [THEN conjunct2, THEN conjunct2, THEN conjunct1]
  note c6 = t [THEN conjunct2, THEN conjunct2, THEN conjunct2, THEN conjunct2, THEN conjunct1]
  note c7 = t [THEN conjunct2, THEN conjunct2, THEN conjunct2, THEN conjunct2, THEN conjunct2,
               THEN conjunct1]
  note c5 = t [THEN conjunct2, THEN conjunct2, THEN conjunct2, THEN conjunct2, THEN conjunct2,
               THEN conjunct2]
  have len: "length ?P = 2" using c1 by simp
  have g: "pageGeometry ?o
      = \<lparr> pageWidth = 595, pageHeight = 842, availableWidth = 555, availableHeight = 802 \<rparr>"
    by (simp add: pageGeometry_def exampleOptions_def)
  have mg: "margin ?o = 20" by (simp add: exampleOptions_def)
  have cell: "cellWidth 4 555 = 267.5" "cellHeight 4 802 = 391"
    by (simp_all add: cellWidth_def cellHeight_def)
  have sc: "min (267.5 / 400) (391 / 300) = (0.66875 :: real)" by simp
  have nz: "image_width e \<noteq> 0 \<and> image_height e \<noteq> 0"
    if "image_width e = 400" "image_height e = 300" for e :: "nat list PDFImage"
    using that by simp
  have slot: "snd (drawCall ?o e k) =
       Some \<lparr> draw_x = 20 + real (k mod 2) * 277.5 + 0,
              draw_y = 842 - (20 + real ((k div 2) mod 2) * 401 + 95.1875) - 200.625,
              draw_width = 267.5, draw_height = 200.625 \<rparr>"
    if e: "image_width e = 400" "image_height e = 300" for e :: "nat list PDFImage" and k
    using c6 [rule_format, OF nz [OF e], of k]
    by (simp add: Let_def g mg cell e sc)
  have d: "drawCall ?o ?png 0
         = (?png, Some \<lparr> draw_x = 20, draw_y = 526.1875, draw_width = 267.5, draw_height = 200.625 \<rparr>)"
      "drawCall ?o ?jpg 1
         = (?jpg, Some \<lparr> draw_x = 297.5, draw_y = 526.1875, draw_width = 267.5, draw_height = 200.625 \<rparr>)"
      "drawCall ?o ?png 2
         = (?png, Some \<lparr> draw_x = 20, draw_y = 125.1875, draw_width = 267.5, draw_height = 200.625 \<rparr>)"
      "drawCall ?o ?jpg 3
         = (?jpg, Some \<lparr> draw_x = 297.5, draw_y = 125.1875, draw_width = 267.5, draw_height = 200.625 \<rparr>)"
    by (simp_all add: prod_eq_iff fst_drawCall slot)
  have es: "map (embedImage exampleEnv ?o) ?imgs = map Some [?png, ?jpg, ?png, ?jpg, ?png]"
    by (simp add: embed_validA embed_validC)
  have "?P = [[drawCall ?o ?png 0, drawCall ?o ?jpg 1, drawCall ?o ?png 2, drawCall ?o ?jpg 3],
              [drawCall ?o ?png 0]]"
    using c5 [rule_format, of ?png ?jpg ?png ?jpg ?png] es by blast
  then have pages: "?P =
     [[(?png, Some \<lparr> draw_x = 20, draw_y = 526.1875, draw_width = 267.5, draw_height = 200.625 \<rparr>),
       (?jpg, Some \<lparr> draw_x = 297.5, draw_y = 526.1875, draw_width = 267.5, draw_height = 200.625 \<rparr>),
       (?png, Some \<lparr> draw_x = 20, draw_y = 125.1875, draw_width = 267.5, draw_height = 200.625 \<rparr>),
       (?jpg, Some \<lparr> draw_x = 297.5, draw_y = 125.1875, draw_width = 267.5, draw_height = 200.625 \<rparr>)],
      [(?png, Some \<lparr> draw_x = 20, draw_y = 526.1875, draw_width = 267.5, draw_height = 200.625 \<rparr>)]]"
    by (simp only: d)
  have a: "embedImage exampleEnv ?o validA \<noteq> None" using h3 by simp
  have c: "embedImage exampleEnv ?o validC \<noteq> None" using h3 by simp
  have j: "(4::nat) < length ?imgs" by simp
  have pj: "\<exists>e. embedImage exampleEnv ?o (?imgs ! 4) = Some e
        \<and> ?P ! (4 div 4) ! (4 mod 4) = drawCall ?o e (4 mod 4)"
    using c2 j by blast
  have ne: "?imgs \<noteq> []" by simp
  have p1: "(1::nat) < length ?P" using len by simp
  have l1: "length (?P ! 1) = min 4 (length ?imgs - 1 * 4)"
    using c3 ne p1 by blast
  have dist: "snd (drawCall ?o ?png 1) \<noteq> snd (drawCall ?o ?png 3)"
    using c7 [rule_format, of ?png 1 3] by (simp add: g)
  show ?thesis by (intro conjI) (fact h1 h2 a c len pages j pj ne p1 l1 dist)+
qed

section \<open>The choice of the embed call\<close>

text \<open>
  C7. The embed call is chosen from the declared media type. If the type contains
  \<open>png\<close>, the bytes of the file are embedded as PNG. Otherwise, if it contains \<open>jpg\<close>
  or \<open>jpeg\<close>, the bytes of the file are embedded as JPEG. Otherwise the file is decoded
  to a canvas, the canvas is encoded as JPEG with the factor 0.9, 0.7 or 0.5 for the
  quality high, medium or low, and these bytes are embedded as JPEG. In the first two
  cases the result does not depend on the quality setting.
\<close>

theorem embed_form_by_media_type:
  "(str_includes (file_type (image_file img)) ''png'' \<longrightarrow>
      embedImage env options img =
        do { imageBytes \<leftarrow> fileToArrayBuffer env (image_file img);
             map_option (embedded PNG imageBytes) (embedPng env imageBytes) })
   \<and> (\<not> str_includes (file_type (image_file img)) ''png''
        \<and> (str_includes (file_type (image_file img)) ''jpg''
             \<or> str_includes (file_type (image_file img)) ''jpeg'') \<longrightarrow>
      embedImage env options img =
        do { imageBytes \<leftarrow> fileToArrayBuffer env (image_file img);
             map_option (embedded JPG imageBytes) (embedJpg env imageBytes) })
   \<and> (\<not> str_includes (file_type (image_file img)) ''png''
        \<and> \<not> str_includes (file_type (image_file img)) ''jpg''
        \<and> \<not> str_includes (file_type (image_file img)) ''jpeg'' \<longrightarrow>
      embedImage env options img =
        do { imageBytes \<leftarrow> fileToArrayBuffer env (image_file img);
             canvas \<leftarrow> imageToCanvas env (image_file img);
             jpegBytes \<leftarrow> canvasToJpeg env canvas
                            (case quality options of High \<Rightarrow> 0.9 | Medium \<Rightarrow> 0.7 | Low \<Rightarrow> 0.5);
             map_option (embedded JPG jpegBytes) (embedJpg env jpegBytes) })
   \<and> (str_includes (file_type (image_file img)) ''png''
        \<or> str_includes (file_type (image_file img)) ''jpg''
        \<or> str_includes (file_type (image_file img)) ''jpeg'' \<longrightarrow>
      embedImage env (options\<lparr> quality := q \<rparr>) img = embedImage env options img)"
proof -
  have Q: "QUALITY_SETTINGS (quality options)
             = (case quality options of High \<Rightarrow> 0.9 | Medium \<Rightarrow> 0.7 | Low \<Rightarrow> 0.5)"
    by (cases "quality options") simp_all
  show ?thesis
    unfolding embedImage_def Q [symmetric]
    by (cases "fileToArrayBuffer env (image_file img)") auto
qed

theorem embed_form_by_media_type_witness:
  "str_includes (file_type (image_file validA)) ''png''
   \<and> embedImage exampleEnv (exampleOptions 1) validA
       = Some \<lparr> embeddedAs = PNG, embeddedBytes = [400, 300], image_width = 400, image_height = 300 \<rparr>
   \<and> \<not> str_includes (file_type (image_file validC)) ''png''
   \<and> str_includes (file_type (image_file validC)) ''jpeg''
   \<and> embedImage exampleEnv (exampleOptions 1) validC
       = Some \<lparr> embeddedAs = JPG, embeddedBytes = [400, 300], image_width = 400, image_height = 300 \<rparr>
   \<and> embedImage exampleEnv ((exampleOptions 1)\<lparr> quality := Low \<rparr>) validC
       = embedImage exampleEnv (exampleOptions 1) validC
   \<and> \<not> str_includes (file_type (image_file animD)) ''png''
   \<and> \<not> str_includes (file_type (image_file animD)) ''jpg''
   \<and> \<not> str_includes (file_type (image_file animD)) ''jpeg''
   \<and> embedImage exampleEnv ((exampleOptions 1)\<lparr> quality := Medium \<rparr>) animD
       = Some \<lparr> embeddedAs = JPG, embeddedBytes = [400, 300, 70], image_width = 400, image_height = 300 \<rparr>"
proof -
  have a: "str_includes (file_type (image_file validA)) ''png''"
    by (simp add: validA_def)
  have c: "\<not> str_includes (file_type (image_file validC)) ''png''"
      "str_includes (file_type (image_file validC)) ''jpeg''"
    by (simp_all add: validC_def)
  have d: "\<not> str_includes (file_type (image_file animD)) ''png''"
      "\<not> str_includes (file_type (image_file animD)) ''jpg''"
      "\<not> str_includes (file_type (image_file animD)) ''jpeg''"
    by (simp_all add: animD_def)
  have ta: "embedImage exampleEnv (exampleOptions 1) validA
       = Some \<lparr> embeddedAs = PNG, embeddedBytes = [400, 300], image_width = 400, image_height = 300 \<rparr>"
    using embed_form_by_media_type [of validA exampleEnv "exampleOptions 1" Low] a
    by (simp add: exampleEnv_def validA_def embedded_def)
  have tc: "embedImage exampleEnv (exampleOptions 1) validC
       = Some \<lparr> embeddedAs = JPG, embeddedBytes = [400, 300], image_width = 400, image_height = 300 \<rparr>"
      "embedImage exampleEnv ((exampleOptions 1)\<lparr> quality := Low \<rparr>) validC
       = embedImage exampleEnv (exampleOptions 1) validC"
    using embed_form_by_media_type [of validC exampleEnv "exampleOptions 1" Low] c
    by (simp_all add: exampleEnv_def validC_def embedded_def)
  have td: "embedImage exampleEnv ((exampleOptions 1)\<lparr> quality := Medium \<rparr>) animD
       = Some \<lparr> embeddedAs = JPG, embeddedBytes = [400, 300, 70], image_width = 400, image_height = 300 \<rparr>"
    using embed_form_by_media_type
            [of animD exampleEnv "(exampleOptions 1)\<lparr> quality := Medium \<rparr>" Low] d
    by (simp add: exampleEnv_def animD_def embedded_def exampleOptions_def)
  show ?thesis by (intro conjI) (fact a c d ta tc td)+
qed

section \<open>Reordering\<close>

lemma reorder_in_bounds:
  assumes "d < length xs" "h < length xs"
  shows "handleImageReorder xs (int d) (int h) =
     map Some (take h (take d xs @ drop (Suc d) xs) @ xs ! d # drop h (take d xs @ drop (Suc d) xs))"
proof -
  define zs where "zs = take d xs @ drop (Suc d) xs"
  have s1: "splice_start (length xs) (int d) = d" using assms(1) by (simp add: splice_start_def)
  have del: "splice_delete (map Some xs) (int d) 1 = map Some zs"
    using assms(1) by (simp add: splice_delete_def s1 Let_def take_map drop_map zs_def)
  have lz: "length (map Some zs) = length xs - 1" using assms(1) by (simp add: zs_def)
  have s2: "splice_start (length (map Some zs)) (int h) = h"
    unfolding lz using assms(2) by (simp add: splice_start_def)
  have ins: "splice_insert (map Some zs) (int h) v = take h (map Some zs) @ v # drop h (map Some zs)"
    for v by (simp only: splice_insert_def Let_def s2)
  have nth: "js_nth xs (int d) = Some (xs ! d)" using assms(1) by (simp add: js_nth_def)
  have "handleImageReorder xs (int d) (int h)
          = take h (map Some zs) @ Some (xs ! d) # drop h (map Some zs)"
    unfolding handleImageReorder_def Let_def del nth ins ..
  also have "\<dots> = map Some (take h zs @ xs ! d # drop h zs)"
    by (simp add: take_map drop_map)
  finally show ?thesis unfolding zs_def .
qed

lemma move_properties:
  assumes "d < length xs" "h < length xs"
  defines "zs \<equiv> take d xs @ drop (Suc d) xs"
  defines "ys \<equiv> take h zs @ xs ! d # drop h zs"
  shows "length ys = length xs" "mset ys = mset xs" "ys ! h = xs ! d"
    "take h ys @ drop (Suc h) ys = zs"
proof -
  have lz: "length zs = length xs - 1" using assms(1) by (simp add: zs_def)
  have hz: "h \<le> length zs" using assms(2) lz by simp
  show "length ys = length xs" using assms(1) lz by (simp add: ys_def)
  have "mset ys = mset zs + {#xs ! d#}"
    unfolding ys_def by (metis append_take_drop_id mset.simps(2) mset_append union_mset_add_mset_right add_mset_add_single)
  also have "\<dots> = mset (take d xs @ xs ! d # drop (Suc d) xs)" by (simp add: zs_def)
  also have "\<dots> = mset xs" using id_take_nth_drop [OF assms(1)] by simp
  finally show "mset ys = mset xs" .
  have lt: "length (take h zs) = h" using hz by simp
  show "ys ! h = xs ! d" unfolding ys_def using lt by (metis nth_append_length)
  show "take h ys @ drop (Suc h) ys = zs"
    unfolding ys_def using lt by simp
qed

text \<open>
  C9. For two distinct indices inside the list, \<open>handleImageReorder\<close> returns a list
  without \<open>undefined\<close>, of the same length and with the same items, each as often as
  before; the item that was at \<open>dragIndex\<close> is at \<open>hoverIndex\<close>, and the other
  items are in their previous order: taking the moved item out of the new list gives the
  previous list without it.
\<close>

theorem reorder_is_a_move:
  assumes "0 \<le> dragIndex" "dragIndex < int (length prev)"
    and "0 \<le> hoverIndex" "hoverIndex < int (length prev)"
    and "dragIndex \<noteq> hoverIndex"
  shows "\<exists>ys. handleImageReorder prev dragIndex hoverIndex = map Some ys
     \<and> length ys = length prev
     \<and> mset ys = mset prev
     \<and> ys ! nat hoverIndex = prev ! nat dragIndex
     \<and> take (nat hoverIndex) ys @ drop (Suc (nat hoverIndex)) ys
         = take (nat dragIndex) prev @ drop (Suc (nat dragIndex)) prev"
proof -
  let ?d = "nat dragIndex" and ?h = "nat hoverIndex"
  have d: "?d < length prev" "int ?d = dragIndex" using assms(1,2) by simp_all
  have h: "?h < length prev" "int ?h = hoverIndex" using assms(3,4) by simp_all
  let ?zs = "take ?d prev @ drop (Suc ?d) prev"
  let ?ys = "take ?h ?zs @ prev ! ?d # drop ?h ?zs"
  have "handleImageReorder prev dragIndex hoverIndex = map Some ?ys"
    using reorder_in_bounds [OF d(1) h(1)] d(2) h(2) by simp
  moreover note move_properties [OF d(1) h(1)]
  ultimately show ?thesis by blast
qed

theorem reorder_is_a_move_witness:
  "(0::int) \<le> 0 \<and> (0::int) < int (length [10::nat, 20, 30, 40])
   \<and> (0::int) \<le> 2 \<and> (2::int) < int (length [10::nat, 20, 30, 40]) \<and> (0::int) \<noteq> 2
   \<and> handleImageReorder [10::nat, 20, 30, 40] 0 2 = map Some [20, 30, 10, 40]
   \<and> (\<exists>ys. handleImageReorder [10::nat, 20, 30, 40] 0 2 = map Some ys
     \<and> length ys = length [10::nat, 20, 30, 40]
     \<and> mset ys = mset [10::nat, 20, 30, 40]
     \<and> ys ! nat 2 = [10::nat, 20, 30, 40] ! nat 0
     \<and> take (nat 2) ys @ drop (Suc (nat 2)) ys
         = take (nat 0) [10::nat, 20, 30, 40] @ drop (Suc (nat 0)) [10::nat, 20, 30, 40])"
proof -
  have h: "(0::int) \<le> 0" "(0::int) < int (length [10::nat, 20, 30, 40])"
     "(0::int) \<le> 2" "(2::int) < int (length [10::nat, 20, 30, 40])" "(0::int) \<noteq> 2"
    by simp_all
  have e: "handleImageReorder [10::nat, 20, 30, 40] 0 2 = map Some [20, 30, 10, 40]"
    by (simp add: handleImageReorder_def js_nth_def splice_delete_def splice_insert_def
          splice_start_def Let_def)
  note t = reorder_is_a_move [OF h]
  show ?thesis by (intro conjI) (fact h e t)+
qed

end
